theory Spec2Isabelle
  imports Main "HOL-Library.Word" "HOL-Library.AList"
begin

section \<open>The Top-K sketch of probabilistic/Topk.cc\<close>

text \<open>
  The development embeds \<^verbatim>\<open>src/probabilistic/Topk.cc\<close>: the Space-Saving sketch
  \<^verbatim>\<open>TopkVal\<close> with its bucket chain, its element table, the update engine
  (\<^verbatim>\<open>Encountered\<close>, \<^verbatim>\<open>IncrementCounter\<close>), \<^verbatim>\<open>Merge\<close>, \<^verbatim>\<open>GetTopK\<close> and the
  two serialization functions.

  \<^verbatim>\<open>Element\<close> and \<^verbatim>\<open>Bucket\<close> objects live on the C++ heap and are referred to by
  pointer from three places (the bucket chain, the element lists of the buckets and the
  element table), so the model keeps an explicit store for each of the two classes and
  represents a pointer by an address. \<^verbatim>\<open>uint64_t\<close> is \<open>64 word\<close>, \<^verbatim>\<open>unsigned int\<close> is
  \<open>32 word\<close>.
\<close>

subsection \<open>Collaborators outside the file\<close>

text \<open>
  Values, their types and the composite hash are declared outside \<^verbatim>\<open>Topk.cc\<close>. The
  sketch needs of a value only its type descriptor and its hash key, and of a hash key
  only equality, so a small concrete universe of values stands for them.
\<close>

datatype TypeTag = TYPE_BOOL | TYPE_COUNT | TYPE_STRING

datatype Val = BoolVal bool | CountVal "64 word" | StringVal string

fun GetType :: "Val \<Rightarrow> TypeTag" where
  "GetType (BoolVal _) = TYPE_BOOL"
| "GetType (CountVal _) = TYPE_COUNT"
| "GetType (StringVal _) = TYPE_STRING"

definition same_type :: "TypeTag \<Rightarrow> TypeTag \<Rightarrow> bool" where
  "same_type t1 t2 = (t1 = t2)"

text \<open>
  The key made by the composite hash encodes the value: equal values give equal keys and
  different values different keys.
\<close>

datatype HashKey = HashKey Val

text \<open>
  The outcome of a call that does not return normally. \<open>ReporterError\<close> is a call of
  \<^verbatim>\<open>reporter->Error\<close> followed by the early \<^verbatim>\<open>return\<close>: the object is left as it was.
  \<open>AssertionFailed\<close> carries the text of the \<^verbatim>\<open>assert\<close> that does not hold.
  \<open>Undefined\<close> is a step the C++ language gives no meaning to (dereferencing the
  \<^verbatim>\<open>begin()\<close> of an empty list, a null or dangling pointer).
\<close>

datatype error = ReporterError string | AssertionFailed string | Undefined string

definition ebind :: "error + 'a \<Rightarrow> ('a \<Rightarrow> error + 'b) \<Rightarrow> error + 'b" where
  "ebind m f = (case m of Inl e \<Rightarrow> Inl e | Inr x \<Rightarrow> f x)"

definition assert :: "bool \<Rightarrow> string \<Rightarrow> error + unit" where
  "assert c msg = (if c then Inr () else Inl (AssertionFailed msg))"

subsection \<open>Data model\<close>

type_synonym addr = nat

text \<open>
  \<^verbatim>\<open>new Element()\<close> value-initialises the object, so \<open>parent\<close> starts as the null
  pointer \<open>None\<close> and \<open>epsilon\<close> as 0.
\<close>

record Element =
  epsilon :: "64 word"
  val :: Val
  parent :: "addr option"

text \<open>
  The field \<^verbatim>\<open>bucketPos\<close> of a bucket is the iterator of the chain node that holds the
  pointer to this bucket. Iterators of a \<^verbatim>\<open>std::list\<close> stay valid while other nodes
  come and go, and every bucket is inserted into the chain once, when it is created; the
  model therefore finds the node again by the bucket's address (\<open>bucketPos\<close> below).
\<close>

record Bucket =
  elements :: "addr list"
  count :: "64 word"

record TopkVal =
  elementDict :: "(HashKey \<times> addr) list"
  buckets :: "addr list"
  size_cap :: "64 word"
  numElements :: "64 word"
  pruned :: bool
  type :: "TypeTag option"
  element_store :: "addr \<Rightarrow> Element option"
  bucket_store :: "addr \<Rightarrow> Bucket option"
  next_addr :: addr

text \<open>
  \<open>size_cap\<close> is the member \<^verbatim>\<open>size\<close>, and \<open>val\<close> of an element the member
  \<^verbatim>\<open>value\<close>. \<open>type\<close> is \<open>None\<close> for the null \<^verbatim>\<open>TypePtr\<close>. The composite hash \<^verbatim>\<open>hash\<close> is
  created by \<^verbatim>\<open>Typify\<close> together with \<open>type\<close> and by nothing else, so it is present
  exactly when \<open>type\<close> is. \<open>next_addr\<close> is the allocator: \<^verbatim>\<open>new\<close> returns an address
  that no live object has.
\<close>

definition TopkVal_init :: "64 word \<Rightarrow> TopkVal" where
  "TopkVal_init arg_size =
     \<lparr> elementDict = [], buckets = [], size_cap = arg_size, numElements = 0, pruned = False,
       type = None, element_store = (\<lambda>_. None), bucket_store = (\<lambda>_. None), next_addr = 0 \<rparr>"

text \<open>
  The default constructor sets \<^verbatim>\<open>size = 0\<close>. It does not assign \<^verbatim>\<open>pruned\<close>; the model
  takes the value \<^verbatim>\<open>false\<close> of the other constructor.
\<close>

definition TopkVal_default :: TopkVal where
  "TopkVal_default = TopkVal_init 0"

definition deref_element :: "TopkVal \<Rightarrow> addr \<Rightarrow> error + Element" where
  "deref_element s a =
     (case element_store s a of None \<Rightarrow> Inl (Undefined ''invalid Element pointer'')
      | Some e \<Rightarrow> Inr e)"

definition deref_bucket :: "TopkVal \<Rightarrow> addr \<Rightarrow> error + Bucket" where
  "deref_bucket s a =
     (case bucket_store s a of None \<Rightarrow> Inl (Undefined ''invalid Bucket pointer'')
      | Some b \<Rightarrow> Inr b)"

text \<open>
  \<^verbatim>\<open>new Element()\<close> followed by the assignments of \<^verbatim>\<open>epsilon\<close> and \<^verbatim>\<open>value\<close>, and
  \<^verbatim>\<open>new Bucket()\<close> followed by the assignment of \<^verbatim>\<open>count\<close>.
\<close>

definition new_Element :: "TopkVal \<Rightarrow> Val \<Rightarrow> addr \<times> TopkVal" where
  "new_Element s v =
     (next_addr s,
      s\<lparr> element_store := (element_store s)(next_addr s \<mapsto> \<lparr> epsilon = 0, val = v, parent = None \<rparr>),
         next_addr := Suc (next_addr s) \<rparr>)"

definition new_Bucket :: "TopkVal \<Rightarrow> 64 word \<Rightarrow> addr \<times> TopkVal" where
  "new_Bucket s c =
     (next_addr s,
      s\<lparr> bucket_store := (bucket_store s)(next_addr s \<mapsto> \<lparr> elements = [], count = c \<rparr>),
         next_addr := Suc (next_addr s) \<rparr>)"

definition set_elements :: "TopkVal \<Rightarrow> addr \<Rightarrow> (addr list \<Rightarrow> addr list) \<Rightarrow> error + TopkVal" where
  "set_elements s b f =
     ebind (deref_bucket s b) (\<lambda>bk.
       Inr (s\<lparr> bucket_store := (bucket_store s)(b \<mapsto> bk\<lparr> elements := f (elements bk) \<rparr>) \<rparr>))"

definition set_parent :: "TopkVal \<Rightarrow> addr \<Rightarrow> addr \<Rightarrow> error + TopkVal" where
  "set_parent s e b =
     ebind (deref_element s e) (\<lambda>el.
       Inr (s\<lparr> element_store := (element_store s)(e \<mapsto> el\<lparr> parent := Some b \<rparr>) \<rparr>))"

definition set_epsilon :: "TopkVal \<Rightarrow> addr \<Rightarrow> (64 word \<Rightarrow> 64 word) \<Rightarrow> error + TopkVal" where
  "set_epsilon s e f =
     ebind (deref_element s e) (\<lambda>el.
       Inr (s\<lparr> element_store := (element_store s)(e \<mapsto> el\<lparr> epsilon := f (epsilon el) \<rparr>) \<rparr>))"

definition delete_Element :: "TopkVal \<Rightarrow> addr \<Rightarrow> TopkVal" where
  "delete_Element s e = s\<lparr> element_store := (element_store s)(e := None) \<rparr>"

definition delete_Bucket :: "TopkVal \<Rightarrow> addr \<Rightarrow> TopkVal" where
  "delete_Bucket s b = s\<lparr> bucket_store := (bucket_store s)(b := None) \<rparr>"

subsection \<open>Typify and GetHash\<close>

definition Typify :: "TopkVal \<Rightarrow> TypeTag \<Rightarrow> error + TopkVal" where
  "Typify s t =
     ebind (assert (type s = None) ''! hash && ! type'') (\<lambda>_.
       Inr (s\<lparr> type := Some t \<rparr>))"

text \<open>
  \<^verbatim>\<open>GetHash\<close> calls \<^verbatim>\<open>hash->MakeHashKey\<close>; before \<^verbatim>\<open>Typify\<close> the pointer \<^verbatim>\<open>hash\<close>
  is null.
\<close>

definition GetHash :: "TopkVal \<Rightarrow> Val \<Rightarrow> error + HashKey" where
  "GetHash s v =
     (case type s of None \<Rightarrow> Inl (Undefined ''hash is null'')
      | Some _ \<Rightarrow> Inr (HashKey v))"

subsection \<open>IncrementCounter\<close>

text \<open>
  The loop \<^verbatim>\<open>while ( bucketIter != buckets.end() && (*bucketIter)->count < currcount + count )\<close>
  over the part of the chain behind the current bucket: the result is the nodes stepped
  over and the nodes from \<^verbatim>\<open>bucketIter\<close> on.
\<close>

fun scan_buckets :: "(addr \<Rightarrow> Bucket option) \<Rightarrow> 64 word \<Rightarrow> addr list \<Rightarrow> error + (addr list \<times> addr list)" where
  "scan_buckets h target [] = Inr ([], [])"
| "scan_buckets h target (a # as) =
     (case h a of None \<Rightarrow> Inl (Undefined ''invalid Bucket pointer'')
      | Some b \<Rightarrow>
          if count b < target
          then ebind (scan_buckets h target as) (\<lambda>(skipped, rest). Inr (a # skipped, rest))
          else Inr ([], a # as))"

text \<open>
  \<^verbatim>\<open>nextBucket\<close> after the test
  \<^verbatim>\<open>bucketIter != buckets.end() && (*bucketIter)->count == currcount + count\<close>.
\<close>

definition find_nextBucket :: "TopkVal \<Rightarrow> 64 word \<Rightarrow> addr list \<Rightarrow> addr option" where
  "find_nextBucket s target rest =
     (case rest of [] \<Rightarrow> None
      | a # _ \<Rightarrow> (case bucket_store s a of None \<Rightarrow> None
                  | Some b \<Rightarrow> if count b = target then Some a else None))"

definition IncrementCounter :: "TopkVal \<Rightarrow> addr \<Rightarrow> 32 word \<Rightarrow> error + TopkVal" where
  "IncrementCounter s e cnt =
     ebind (deref_element s e) (\<lambda>el.
     case parent el of None \<Rightarrow> Inl (Undefined ''null parent'')
     | Some currBucket \<Rightarrow>
     ebind (deref_bucket s currBucket) (\<lambda>cb.
     let currcount = count cb; target = currcount + ucast cnt in
     if currBucket \<notin> set (buckets s) then Inl (Undefined ''invalid bucketPos'') else
     let before = takeWhile (\<lambda>x. x \<noteq> currBucket) (buckets s);
         after = tl (dropWhile (\<lambda>x. x \<noteq> currBucket) (buckets s)) in
     ebind (scan_buckets (bucket_store s) target after) (\<lambda>(skipped, rest).
     let (nextBucket, s1) =
           (case find_nextBucket s target rest of
              Some nb \<Rightarrow> (nb, s)
            | None \<Rightarrow>
                (let (b, s') = new_Bucket s target
                 in (b, s'\<lparr> buckets := before @ currBucket # skipped @ b # rest \<rparr>))) in
     ebind (set_elements s1 currBucket (removeAll e)) (\<lambda>s2.
     ebind (set_elements s2 nextBucket (\<lambda>es. es @ [e])) (\<lambda>s3.
     ebind (set_parent s3 e nextBucket) (\<lambda>s4.
     ebind (deref_bucket s4 currBucket) (\<lambda>cb'.
     if elements cb' = []
     then Inr (delete_Bucket (s4\<lparr> buckets := removeAll currBucket (buckets s4) \<rparr>) currBucket)
     else Inr s4)))))))"

subsection \<open>Encountered\<close>

text \<open>
  The element table: \<^verbatim>\<open>Lookup\<close>, \<^verbatim>\<open>Insert\<close> and \<^verbatim>\<open>RemoveEntry\<close> of \<^verbatim>\<open>PDict\<close>.
\<close>

definition Lookup :: "TopkVal \<Rightarrow> HashKey \<Rightarrow> addr option" where
  "Lookup s key = map_of (elementDict s) key"

definition Insert :: "TopkVal \<Rightarrow> HashKey \<Rightarrow> addr \<Rightarrow> TopkVal" where
  "Insert s key e = s\<lparr> elementDict := AList.update key e (elementDict s) \<rparr>"

definition RemoveEntry :: "TopkVal \<Rightarrow> HashKey \<Rightarrow> addr option \<times> TopkVal" where
  "RemoveEntry s key =
     (map_of (elementDict s) key, s\<lparr> elementDict := AList.delete key (elementDict s) \<rparr>)"

text \<open>
  The first branch of \<^verbatim>\<open>Encountered\<close> for a value that is not in the table
  (\<^verbatim>\<open>numElements < size\<close>): the element goes to the bucket of count 1.
\<close>

definition Encountered_add :: "TopkVal \<Rightarrow> HashKey \<Rightarrow> addr \<Rightarrow> error + TopkVal" where
  "Encountered_add s key e =
     ebind (case buckets s of [] \<Rightarrow> Inr True
            | b # _ \<Rightarrow> ebind (deref_bucket s b) (\<lambda>bk. Inr (count bk > 1))) (\<lambda>fresh.
     ebind (if fresh
            then (let (b, s1) = new_Bucket s 1;
                      s2 = s1\<lparr> buckets := b # buckets s1 \<rparr>
                  in ebind (set_elements s2 b (\<lambda>es. es @ [e])) (\<lambda>s3. set_parent s3 e b))
            else (case buckets s of [] \<Rightarrow> Inl (Undefined ''begin of empty list'')
                  | b # _ \<Rightarrow>
                      ebind (deref_bucket s b) (\<lambda>bk.
                      ebind (assert (count bk = 1) ''b->count == 1'') (\<lambda>_.
                      ebind (set_elements s b (\<lambda>es. es @ [e])) (\<lambda>s3. set_parent s3 e b))))) (\<lambda>s4.
     let s5 = Insert s4 key e
     in Inr (s5\<lparr> numElements := numElements s5 + 1 \<rparr>)))"

text \<open>
  The second branch (\<^verbatim>\<open>else\<close>): the oldest element of the bucket with the smallest count
  is evicted and the new element takes its place; the caller then increments it.
\<close>

definition Encountered_replace :: "TopkVal \<Rightarrow> HashKey \<Rightarrow> addr \<Rightarrow> error + TopkVal" where
  "Encountered_replace s key e =
     (case buckets s of [] \<Rightarrow> Inl (Undefined ''begin of empty list'')
      | b # _ \<Rightarrow>
     ebind (deref_bucket s b) (\<lambda>bk.
     ebind (assert (elements bk \<noteq> []) ''b->elements.size() > 0'') (\<lambda>_.
     ebind (deref_element s (hd (elements bk))) (\<lambda>victim.
     ebind (GetHash s (val victim)) (\<lambda>deleteKey.
     ebind (set_elements s b tl) (\<lambda>s1.
     let (deleteElement, s2) = RemoveEntry s1 deleteKey in
     case deleteElement of None \<Rightarrow> Inl (AssertionFailed ''deleteElement'')
     | Some d \<Rightarrow>
     let s3 = delete_Element s2 d in
     ebind (set_epsilon s3 e (\<lambda>_. count bk)) (\<lambda>s4.
     ebind (set_elements s4 b (\<lambda>es. es @ [e])) (\<lambda>s5.
     let s6 = Insert s5 key e in
     set_parent s6 e b))))))))"

definition Encountered :: "TopkVal \<Rightarrow> Val \<Rightarrow> error + TopkVal" where
  "Encountered s encountered =
     ebind (if numElements s = 0 then Typify s (GetType encountered)
            else (case type s of None \<Rightarrow> Inl (Undefined ''type is null'')
                  | Some t \<Rightarrow>
                      if \<not> same_type t (GetType encountered)
                      then Inl (ReporterError ''Trying to add element to topk with differing type from other elements'')
                      else Inr s)) (\<lambda>s0.
     ebind (GetHash s0 encountered) (\<lambda>key.
     case Lookup s0 key of
       Some e \<Rightarrow> IncrementCounter s0 e 1
     | None \<Rightarrow>
         (let (e, s1) = new_Element s0 encountered in
          if numElements s1 < size_cap s1
          then Encountered_add s1 key e
          else ebind (Encountered_replace s1 key e) (\<lambda>s2. IncrementCounter s2 e 1))))"

text \<open>
  A stream of observations. After a reported type mismatch the caller goes on with the
  unchanged object; a failed assertion or an undefined step ends the run.
\<close>

fun Encountered_all :: "TopkVal \<Rightarrow> Val list \<Rightarrow> error + TopkVal" where
  "Encountered_all s [] = Inr s"
| "Encountered_all s (v # vs) =
     (case Encountered s v of
        Inr s' \<Rightarrow> Encountered_all s' vs
      | Inl (ReporterError _) \<Rightarrow> Encountered_all s vs
      | Inl e \<Rightarrow> Inl e)"

text \<open>
  What a caller can observe of the chain: for each bucket in chain order its count and,
  in list order, the value and the epsilon of each of its elements.
\<close>

definition bucket_view :: "TopkVal \<Rightarrow> addr \<Rightarrow> 64 word \<times> (Val \<times> 64 word) list" where
  "bucket_view s b =
     (case bucket_store s b of None \<Rightarrow> (0, [])
      | Some bk \<Rightarrow>
          (count bk,
           concat (map (\<lambda>e. case element_store s e of None \<Rightarrow> []
                                | Some el \<Rightarrow> [(val el, epsilon el)]) (elements bk))))"

definition chain_view :: "TopkVal \<Rightarrow> (64 word \<times> (Val \<times> 64 word) list) list" where
  "chain_view s = map (bucket_view s) (buckets s)"

subsection \<open>Merge\<close>

text \<open>
  The body of the inner loop of \<^verbatim>\<open>Merge\<close> for one element \<open>e\<close> of the other sketch
  in a bucket of count \<open>currcount\<close>. \<^verbatim>\<open>IncrementCounter\<close> takes an \<^verbatim>\<open>unsigned int\<close>, so
  the 64-bit \<open>currcount\<close> is converted at the call.
\<close>

definition merge_element :: "TopkVal \<Rightarrow> Element \<Rightarrow> 64 word \<Rightarrow> error + TopkVal" where
  "merge_element s e currcount =
     ebind (GetHash s (val e)) (\<lambda>key.
     ebind (case Lookup s key of
              Some olde \<Rightarrow> Inr (olde, s)
            | None \<Rightarrow>
                (let (olde, s1) = new_Element s (val e) in
                 ebind (case buckets s1 of [] \<Rightarrow> Inr ()
                        | b # _ \<Rightarrow> ebind (deref_bucket s1 b) (\<lambda>bk.
                                     assert (count bk > 0) ''buckets.front()->count > 0'')) (\<lambda>_.
                 let (newbucket, s2) = new_Bucket s1 0;
                     s3 = s2\<lparr> buckets := newbucket # buckets s2 \<rparr> in
                 ebind (set_parent s3 olde newbucket) (\<lambda>s4.
                 ebind (set_elements s4 newbucket (\<lambda>es. es @ [olde])) (\<lambda>s5.
                 let s6 = Insert s5 key olde
                 in Inr (olde, s6\<lparr> numElements := numElements s6 + 1 \<rparr>)))))) (\<lambda>(olde, s7).
     ebind (set_epsilon s7 olde (\<lambda>x. x + epsilon e)) (\<lambda>s8.
     IncrementCounter s8 olde (ucast currcount))))"

fun merge_elements :: "TopkVal \<Rightarrow> TopkVal \<Rightarrow> 64 word \<Rightarrow> addr list \<Rightarrow> error + TopkVal" where
  "merge_elements s other currcount [] = Inr s"
| "merge_elements s other currcount (eit # eits) =
     ebind (deref_element other eit) (\<lambda>e.
     ebind (merge_element s e currcount) (\<lambda>s'.
     merge_elements s' other currcount eits))"

fun merge_buckets :: "TopkVal \<Rightarrow> TopkVal \<Rightarrow> addr list \<Rightarrow> error + TopkVal" where
  "merge_buckets s other [] = Inr s"
| "merge_buckets s other (it # its) =
     ebind (deref_bucket other it) (\<lambda>b.
     ebind (merge_elements s other (count b) (elements b)) (\<lambda>s'.
     merge_buckets s' other its))"

text \<open>One round of the loop \<^verbatim>\<open>while ( numElements > size )\<close>.\<close>

definition prune_step :: "TopkVal \<Rightarrow> error + TopkVal" where
  "prune_step s =
     (let s1 = s\<lparr> pruned := True \<rparr> in
      ebind (assert (buckets s1 \<noteq> []) ''buckets.size() > 0'') (\<lambda>_.
      let b = hd (buckets s1) in
      ebind (deref_bucket s1 b) (\<lambda>bk.
      ebind (assert (elements bk \<noteq> []) ''b->elements.size() > 0'') (\<lambda>_.
      let e = hd (elements bk) in
      ebind (deref_element s1 e) (\<lambda>el.
      ebind (GetHash s1 (val el)) (\<lambda>key.
      let s2 = snd (RemoveEntry s1 key);
          s3 = delete_Element s2 e in
      ebind (set_elements s3 b tl) (\<lambda>s4.
      ebind (deref_bucket s4 b) (\<lambda>bk'.
      let s5 = (if elements bk' = []
                then (delete_Bucket s4 b)\<lparr> buckets := tl (buckets s4) \<rparr>
                else s4)
      in Inr (s5\<lparr> numElements := numElements s5 - 1 \<rparr>)))))))))"

lemma prune_step_numElements:
  "prune_step s = Inr s' \<Longrightarrow> numElements s' = numElements s - 1"
  by (auto simp: prune_step_def ebind_def assert_def Let_def set_elements_def deref_bucket_def
        deref_element_def GetHash_def RemoveEntry_def delete_Element_def delete_Bucket_def
      split: sum.splits if_splits option.splits)

function prune_loop :: "TopkVal \<Rightarrow> error + TopkVal" where
  "prune_loop s =
     (if numElements s > size_cap s
      then (case prune_step s of Inl err \<Rightarrow> Inl err | Inr s' \<Rightarrow> prune_loop s')
      else Inr s)"
  by pat_completeness auto
termination
proof (relation "measure (\<lambda>s. unat (numElements s))")
  show "wf (measure (\<lambda>s. unat (numElements s)))" by simp
next
  fix s s'
  assume gt: "size_cap s < numElements s" and st: "prune_step s = Inr s'"
  from gt have "numElements s \<noteq> 0" by (auto simp: word_less_nat_alt)
  then have "unat (numElements s - 1) < unat (numElements s)"
    by (simp add: unat_minus_one unat_gt_0)
  with prune_step_numElements [OF st]
  show "(s', s) \<in> measure (\<lambda>s. unat (numElements s))" by simp
qed

declare prune_loop.simps [simp del]

definition Merge :: "TopkVal \<Rightarrow> TopkVal \<Rightarrow> bool \<Rightarrow> error + TopkVal" where
  "Merge s other doPrune =
     (case type other of
        None \<Rightarrow> ebind (assert (numElements other = 0) ''value->numElements == 0'') (\<lambda>_. Inr s)
      | Some vt \<Rightarrow>
          ebind (case type s of
                   None \<Rightarrow> ebind (assert (numElements s = 0) ''numElements == 0'') (\<lambda>_. Typify s vt)
                 | Some t \<Rightarrow>
                     if \<not> same_type t vt
                     then Inl (ReporterError ''Cannot merge top-k elements of differing types.'')
                     else Inr s) (\<lambda>s1.
          ebind (merge_buckets s1 other (buckets other)) (\<lambda>s2.
          ebind (assert (size_cap s2 > 0) ''size > 0'') (\<lambda>_.
          if \<not> doPrune then Inr s2 else prune_loop s2))))"

subsection \<open>GetTopK\<close>

fun element_values :: "TopkVal \<Rightarrow> addr list \<Rightarrow> error + Val list" where
  "element_values s [] = Inr []"
| "element_values s (eit # eits) =
     ebind (deref_element s eit) (\<lambda>el.
     ebind (element_values s eits) (\<lambda>vs. Inr (val el # vs)))"

text \<open>
  The loop \<^verbatim>\<open>while ( read < k )\<close>. Its third argument is the vector \<^verbatim>\<open>t\<close> (\<^verbatim>\<open>read\<close> is
  its length), its last argument the chain from \<^verbatim>\<open>it\<close> back to \<^verbatim>\<open>begin()\<close>.
\<close>

fun topk_loop :: "TopkVal \<Rightarrow> int \<Rightarrow> Val list \<Rightarrow> addr list \<Rightarrow> error + Val list" where
  "topk_loop s k t [] = Inr t"
| "topk_loop s k t (it # its) =
     (if int (length t) < k
      then ebind (deref_bucket s it) (\<lambda>b.
           ebind (element_values s (elements b)) (\<lambda>vs.
           if its = [] then Inr (t @ vs) else topk_loop s k (t @ vs) its))
      else Inr t)"

definition GetTopK :: "TopkVal \<Rightarrow> int \<Rightarrow> error + Val list" where
  "GetTopK s k =
     (if numElements s = 0 then Inl (ReporterError ''Cannot return topk of empty'')
      else if buckets s = [] then Inl (Undefined ''decrement of begin()'')
      else topk_loop s k [] (rev (buckets s)))"

subsection \<open>Serialization\<close>

text \<open>
  The Broker data model and the conversions between values, types and Broker data are
  declared outside \<^verbatim>\<open>Topk.cc\<close>. \<open>BrokerData\<close> has the shapes the two functions test
  for; the four conversions they call are a parameter of the model.
\<close>

datatype BrokerData =
    BNil
  | BCount "64 word"
  | BBool bool
  | BString string
  | BList "BrokerData list"

record Broker =
  SerializeType :: "TypeTag \<Rightarrow> BrokerData option"
  UnserializeType :: "BrokerData \<Rightarrow> TypeTag option"
  Convert :: "Val \<Rightarrow> BrokerData option"
  ToVal :: "BrokerData \<Rightarrow> TypeTag option \<Rightarrow> Val option"

text \<open>
  The two loops of \<^verbatim>\<open>DoSerialize\<close>. The result \<open>None\<close> is \<^verbatim>\<open>return std::nullopt\<close>;
  otherwise it is the entries added to the builder and the counter \<^verbatim>\<open>i\<close>.
\<close>

fun serialize_elements ::
  "Broker \<Rightarrow> TopkVal \<Rightarrow> 64 word \<Rightarrow> addr list \<Rightarrow> error + (BrokerData list \<times> 64 word) option" where
  "serialize_elements br s i [] = Inr (Some ([], i))"
| "serialize_elements br s i (a # as) =
     ebind (deref_element s a) (\<lambda>element.
     case Convert br (val element) of
       None \<Rightarrow> Inr None
     | Some v \<Rightarrow>
         ebind (serialize_elements br s (i + 1) as) (\<lambda>r.
         Inr (map_option (\<lambda>(xs, i'). (BCount (epsilon element) # v # xs, i')) r)))"

fun serialize_buckets ::
  "Broker \<Rightarrow> TopkVal \<Rightarrow> 64 word \<Rightarrow> addr list \<Rightarrow> error + (BrokerData list \<times> 64 word) option" where
  "serialize_buckets br s i [] = Inr (Some ([], i))"
| "serialize_buckets br s i (a # as) =
     ebind (deref_bucket s a) (\<lambda>b.
     ebind (serialize_elements br s i (elements b)) (\<lambda>r.
     case r of
       None \<Rightarrow> Inr None
     | Some (es, i') \<Rightarrow>
         ebind (serialize_buckets br s i' as) (\<lambda>r'.
         Inr (map_option
               (\<lambda>(xs, i''). (BCount (of_nat (length (elements b))) # BCount (count b) # es @ xs, i''))
               r'))))"

definition DoSerialize :: "Broker \<Rightarrow> TopkVal \<Rightarrow> error + BrokerData option" where
  "DoSerialize br s =
     (case (case type s of None \<Rightarrow> Some BNil | Some t \<Rightarrow> SerializeType br t) of
        None \<Rightarrow> Inr None
      | Some t \<Rightarrow>
          ebind (serialize_buckets br s 0 (buckets s)) (\<lambda>r.
          case r of
            None \<Rightarrow> Inr None
          | Some (xs, i) \<Rightarrow>
              ebind (assert (i = numElements s) ''i == numElements'') (\<lambda>_.
              Inr (Some (BList
                (BCount (size_cap s) # BCount (numElements s) # BBool (pruned s) # t # xs))))))"

text \<open>
  The loop \<^verbatim>\<open>for ( uint64_t j = 0; j < elements_count; j++ )\<close> of \<^verbatim>\<open>DoUnserialize\<close>,
  with the number of rounds still to run, and the list \<^verbatim>\<open>v\<close> from \<^verbatim>\<open>index\<close> on. The
  second component of the result is \<open>None\<close> after \<^verbatim>\<open>return false\<close>, and otherwise the
  counter \<^verbatim>\<open>i\<close> and the rest of the list.
\<close>

fun unserialize_elements ::
  "Broker \<Rightarrow> addr \<Rightarrow> nat \<Rightarrow> TopkVal \<Rightarrow> 64 word \<Rightarrow> BrokerData list
     \<Rightarrow> error + (TopkVal \<times> (64 word \<times> BrokerData list) option)" where
  "unserialize_elements br b 0 s i rest = Inr (s, Some (i, rest))"
| "unserialize_elements br b (Suc j) s i rest =
     (case rest of
        BCount eps # d # rest' \<Rightarrow>
          (case ToVal br d (type s) of
             None \<Rightarrow> Inr (s, None)
           | Some v \<Rightarrow>
               (let (e, s1) = new_Element s v in
                ebind (set_epsilon s1 e (\<lambda>_. eps)) (\<lambda>s2.
                ebind (set_parent s2 e b) (\<lambda>s3.
                ebind (set_elements s3 b (\<lambda>es. es @ [e])) (\<lambda>s4.
                ebind (GetHash s4 v) (\<lambda>key.
                ebind (assert (Lookup s4 key = None) ''elementDict->Lookup(key) == nullptr'') (\<lambda>_.
                unserialize_elements br b j (Insert s4 key e) (i + 1) rest')))))))
      | _ \<Rightarrow> Inr (s, None))"

lemma unserialize_elements_length:
  "unserialize_elements br b j s i rest = Inr (s', Some (i', rest')) \<Longrightarrow> length rest' \<le> length rest"
proof (induction j arbitrary: s i rest)
  case 0
  then show ?case by simp
next
  case (Suc j)
  from Suc.prems show ?case
    by (auto simp: ebind_def split: list.splits BrokerData.splits option.splits prod.splits
          sum.splits dest!: Suc.IH)
qed

text \<open>The loop \<^verbatim>\<open>while ( i < numElements )\<close> and the final \<^verbatim>\<open>atEnd()\<close> test.\<close>

function unserialize_buckets ::
  "Broker \<Rightarrow> TopkVal \<Rightarrow> 64 word \<Rightarrow> BrokerData list \<Rightarrow> error + (bool \<times> TopkVal)" where
  "unserialize_buckets br s i rest =
     (if i < numElements s
      then (case rest of
              BCount elements_count # BCount cnt # rest' \<Rightarrow>
                (let (b, s1) = new_Bucket s cnt;
                     s2 = s1\<lparr> buckets := buckets s1 @ [b] \<rparr>
                 in case unserialize_elements br b (unat elements_count) s2 i rest' of
                      Inl err \<Rightarrow> Inl err
                    | Inr (s3, None) \<Rightarrow> Inr (False, s3)
                    | Inr (s3, Some (i', rest'')) \<Rightarrow> unserialize_buckets br s3 i' rest'')
            | _ \<Rightarrow> Inr (False, s))
      else Inr (rest = [], s))"
  by pat_completeness auto
termination
  by (relation "measure (\<lambda>(br, s, i, rest). length rest)")
     (auto dest!: unserialize_elements_length)

declare unserialize_buckets.simps [simp del]

definition DoUnserialize :: "Broker \<Rightarrow> TopkVal \<Rightarrow> BrokerData \<Rightarrow> error + (bool \<times> TopkVal)" where
  "DoUnserialize br s data =
     (case data of
        BList (BCount v0 # BCount v1 # BBool v2 # v3 # rest) \<Rightarrow>
          (let s1 = s\<lparr> size_cap := v0, numElements := v1, pruned := v2 \<rparr> in
           if v3 \<noteq> BNil
           then (case UnserializeType br v3 of
                   None \<Rightarrow> Inr (False, s1)
                 | Some t \<Rightarrow> ebind (Typify s1 t) (\<lambda>s2. unserialize_buckets br s2 0 rest))
           else unserialize_buckets br s1 0 rest)
      | _ \<Rightarrow> Inr (False, s))"

text \<open>
  A concrete Broker: a value is carried by the Broker datum of its shape, a type by its
  number. It serves to run the two functions on examples.
\<close>

definition example_Broker :: Broker where
  "example_Broker =
     \<lparr> SerializeType = (\<lambda>t. Some (BCount (case t of TYPE_BOOL \<Rightarrow> 1 | TYPE_COUNT \<Rightarrow> 2 | TYPE_STRING \<Rightarrow> 3))),
       UnserializeType = (\<lambda>d. if d = BCount 1 then Some TYPE_BOOL
                               else if d = BCount 2 then Some TYPE_COUNT
                               else if d = BCount 3 then Some TYPE_STRING else None),
       Convert = (\<lambda>v. Some (case v of BoolVal b \<Rightarrow> BBool b | CountVal c \<Rightarrow> BCount c | StringVal x \<Rightarrow> BString x)),
       ToVal = (\<lambda>d t. case (d, t) of
                  (BBool b, Some TYPE_BOOL) \<Rightarrow> Some (BoolVal b)
                | (BCount c, Some TYPE_COUNT) \<Rightarrow> Some (CountVal c)
                | (BString x, Some TYPE_STRING) \<Rightarrow> Some (StringVal x)
                | _ \<Rightarrow> None) \<rparr>"

definition observe ::
  "error + TopkVal \<Rightarrow> error + ((64 word \<times> (Val \<times> 64 word) list) list \<times> 64 word \<times> bool)" where
  "observe r = map_sum id (\<lambda>s. (chain_view s, numElements s, pruned s)) r"

text \<open>The sketch a fresh \<^verbatim>\<open>TopkVal(cap)\<close> becomes on a stream of observations.\<close>

definition sketch_of :: "64 word \<Rightarrow> Val list \<Rightarrow> TopkVal" where
  "sketch_of cap vs =
     (case Encountered_all (TopkVal_init cap) vs of Inr s \<Rightarrow> s | Inl _ \<Rightarrow> TopkVal_init cap)"

text \<open>The members that only the constructors, \<^verbatim>\<open>Typify\<close> and the pruning loop write.\<close>

definition same_fields :: "TopkVal \<Rightarrow> TopkVal \<Rightarrow> bool" where
  "same_fields s s' \<longleftrightarrow> size_cap s' = size_cap s \<and> pruned s' = pruned s \<and> type s' = type s"

definition bucket_elements :: "TopkVal \<Rightarrow> addr \<Rightarrow> addr list" where
  "bucket_elements s b = (case bucket_store s b of None \<Rightarrow> [] | Some bk \<Rightarrow> elements bk)"

definition bucket_count :: "TopkVal \<Rightarrow> addr \<Rightarrow> 64 word" where
  "bucket_count s b = (case bucket_store s b of None \<Rightarrow> 0 | Some bk \<Rightarrow> count bk)"

definition all_elements :: "TopkVal \<Rightarrow> addr list" where
  "all_elements s = concat (map (bucket_elements s) (buckets s))"

definition element_ok :: "TopkVal \<Rightarrow> addr \<Rightarrow> addr \<Rightarrow> bool" where
  "element_ok s b e \<longleftrightarrow>
     e < next_addr s \<and>
     (case element_store s e of None \<Rightarrow> False
      | Some el \<Rightarrow> parent el = Some b \<and> map_of (elementDict s) (HashKey (val el)) = Some e)"

definition entry_ok :: "TopkVal \<Rightarrow> HashKey \<times> addr \<Rightarrow> bool" where
  "entry_ok s ke \<longleftrightarrow>
     (\<exists>b \<in> set (buckets s). snd ke \<in> set (bucket_elements s b)) \<and>
     (case element_store s (snd ke) of None \<Rightarrow> False | Some el \<Rightarrow> HashKey (val el) = fst ke)"

definition valid_upto :: "addr set \<Rightarrow> TopkVal \<Rightarrow> bool" where
  "valid_upto X s \<longleftrightarrow>
     distinct (buckets s) \<and>
     (\<forall>b \<in> set (buckets s). b < next_addr s \<and> bucket_store s b \<noteq> None \<and> (b \<notin> X \<longrightarrow> bucket_elements s b \<noteq> [])) \<and>
     (\<forall>b \<in> set (buckets s). distinct (bucket_elements s b)) \<and>
     (\<forall>b \<in> set (buckets s). \<forall>e \<in> set (bucket_elements s b). element_ok s b e) \<and>
     (\<forall>ke \<in> set (elementDict s). entry_ok s ke) \<and>
     (buckets s \<noteq> [] \<longrightarrow> type s \<noteq> None)"

definition valid :: "TopkVal \<Rightarrow> bool" where
  "valid s = valid_upto {} s"

definition move_element :: "TopkVal \<Rightarrow> addr \<Rightarrow> addr \<Rightarrow> addr \<Rightarrow> TopkVal" where
  "move_element s e cb nb =
     s\<lparr> buckets := (if removeAll e (bucket_elements s cb) = [] then removeAll cb (buckets s) else buckets s),
        bucket_store := ((bucket_store s)
           (nb := map_option (\<lambda>bk. bk\<lparr> elements := elements bk @ [e] \<rparr>) (bucket_store s nb)))
           (cb := if removeAll e (bucket_elements s cb) = [] then None
                  else map_option (\<lambda>bk. bk\<lparr> elements := removeAll e (elements bk) \<rparr>) (bucket_store s cb)),
        element_store := (element_store s)(e := map_option (\<lambda>el. el\<lparr> parent := Some nb \<rparr>) (element_store s e)) \<rparr>"

definition with_new_bucket :: "TopkVal \<Rightarrow> 64 word \<Rightarrow> addr list \<Rightarrow> TopkVal" where
  "with_new_bucket s c bl =
     s\<lparr> buckets := bl,
        bucket_store := (bucket_store s)(next_addr s \<mapsto> \<lparr> elements = [], count = c \<rparr>),
        next_addr := Suc (next_addr s) \<rparr>"

definition inc_target :: "TopkVal \<Rightarrow> addr \<Rightarrow> 32 word \<Rightarrow> 64 word" where
  "inc_target s cb cnt = bucket_count s cb + ucast cnt"

definition reuse :: "TopkVal \<Rightarrow> 64 word \<Rightarrow> addr list \<Rightarrow> bool" where
  "reuse s target post \<longleftrightarrow>
     dropWhile (\<lambda>b. bucket_count s b < target) post \<noteq> [] \<and>
     bucket_count s (hd (dropWhile (\<lambda>b. bucket_count s b < target) post)) = target"

definition chain_counts :: "TopkVal \<Rightarrow> 64 word list" where
  "chain_counts s = map (bucket_count s) (buckets s)"

definition ordered :: "TopkVal \<Rightarrow> bool" where
  "ordered s \<longleftrightarrow> sorted_wrt (<) (chain_counts s)"

definition inc_result :: "TopkVal \<Rightarrow> addr list \<Rightarrow> addr \<Rightarrow> addr list \<Rightarrow> addr \<Rightarrow> 32 word \<Rightarrow> TopkVal" where
  "inc_result s pre cb post e cnt =
     (if reuse s (inc_target s cb cnt) post
      then move_element s e cb (hd (dropWhile (\<lambda>b. bucket_count s b < inc_target s cb cnt) post))
      else move_element
             (with_new_bucket s (inc_target s cb cnt)
                (pre @ cb # takeWhile (\<lambda>b. bucket_count s b < inc_target s cb cnt) post
                   @ next_addr s # dropWhile (\<lambda>b. bucket_count s b < inc_target s cb cnt) post))
             e cb (next_addr s))"

definition inc_dest :: "TopkVal \<Rightarrow> addr \<Rightarrow> addr list \<Rightarrow> 32 word \<Rightarrow> addr" where
  "inc_dest s cb post cnt =
     (if reuse s (inc_target s cb cnt) post
      then hd (dropWhile (\<lambda>b. bucket_count s b < inc_target s cb cnt) post)
      else next_addr s)"

text \<open>Example sketches: capacity 3 after the stream A, A, B.\<close>

definition sketch_AAB :: TopkVal where
  "sketch_AAB = sketch_of 3 [StringVal ''A'', StringVal ''A'', StringVal ''B'']"

definition alloc_element :: "TopkVal \<Rightarrow> Val \<Rightarrow> 64 word \<Rightarrow> TopkVal" where
  "alloc_element s v eps =
     s\<lparr> element_store := (element_store s)(next_addr s \<mapsto> \<lparr> epsilon = eps, val = v, parent = None \<rparr>),
        next_addr := Suc (next_addr s) \<rparr>"

definition attach_element :: "TopkVal \<Rightarrow> addr \<Rightarrow> addr \<Rightarrow> HashKey \<Rightarrow> TopkVal" where
  "attach_element s e b key =
     s\<lparr> bucket_store := (bucket_store s)
           (b := map_option (\<lambda>bk. bk\<lparr> elements := elements bk @ [e] \<rparr>) (bucket_store s b)),
        element_store := (element_store s)
           (e := map_option (\<lambda>el. el\<lparr> parent := Some b \<rparr>) (element_store s e)),
        elementDict := AList.update key e (elementDict s) \<rparr>"

definition detach_victim :: "TopkVal \<Rightarrow> addr \<Rightarrow> addr \<Rightarrow> HashKey \<Rightarrow> TopkVal" where
  "detach_victim s b d key =
     s\<lparr> bucket_store := (bucket_store s)
           (b := map_option (\<lambda>bk. bk\<lparr> elements := tl (elements bk) \<rparr>) (bucket_store s b)),
        element_store := (element_store s)(d := None),
        elementDict := AList.delete key (elementDict s) \<rparr>"

definition set_eps :: "TopkVal \<Rightarrow> addr \<Rightarrow> (64 word \<Rightarrow> 64 word) \<Rightarrow> TopkVal" where
  "set_eps s e f =
     s\<lparr> element_store := (element_store s)
           (e := map_option (\<lambda>el. el\<lparr> epsilon := f (epsilon el) \<rparr>) (element_store s e)) \<rparr>"

definition no_wrap :: "TopkVal \<Rightarrow> bool" where
  "no_wrap s \<longleftrightarrow> (\<forall>c \<in> set (chain_counts s). c \<noteq> - 1)"

text \<open>\<^verbatim>\<open>numElements\<close> is the number of elements in the buckets of the chain.\<close>

definition counted :: "TopkVal \<Rightarrow> bool" where
  "counted s \<longleftrightarrow> unat (numElements s) = length (all_elements s)"

text \<open>Capacity 3 after the stream A, B, C: the sketch is full.\<close>

definition sketch_ABC :: TopkVal where
  "sketch_ABC = sketch_of 3 [StringVal ''A'', StringVal ''B'', StringVal ''C'']"

text \<open>
  The values of a bucket in the order of its element list, and the values of the \<open>n\<close>
  buckets of highest count, from the tail of the chain down.
\<close>

definition bucket_values :: "TopkVal \<Rightarrow> addr \<Rightarrow> Val list" where
  "bucket_values s b = map fst (snd (bucket_view s b))"

definition emitted :: "TopkVal \<Rightarrow> nat \<Rightarrow> Val list" where
  "emitted s n = concat (map (bucket_values s) (take n (rev (buckets s))))"

text \<open>Capacity 3 after the stream A, B, C, D.\<close>

definition sketch_ABCD :: TopkVal where
  "sketch_ABCD = sketch_of 3 [StringVal ''A'', StringVal ''B'', StringVal ''C'', StringVal ''D'']"

definition positive :: "TopkVal \<Rightarrow> bool" where
  "positive s \<longleftrightarrow> (\<forall>c \<in> set (chain_counts s). c \<noteq> 0)"

definition bounded :: "nat \<Rightarrow> TopkVal \<Rightarrow> bool" where
  "bounded M s \<longleftrightarrow> (\<forall>c \<in> set (chain_counts s). unat c \<le> M)"

definition merge_inv :: "nat \<Rightarrow> TopkVal \<Rightarrow> bool" where
  "merge_inv M s \<longleftrightarrow>
     valid_upto {} s \<and> type s \<noteq> None \<and> ordered s \<and> positive s \<and> bounded M s"

definition count32 :: "64 word \<Rightarrow> 64 word" where
  "count32 c = ucast (ucast c :: 32 word)"

definition merge_weight :: "TopkVal \<Rightarrow> addr list \<Rightarrow> nat" where
  "merge_weight other bs =
     sum_list (map (\<lambda>b. length (bucket_elements other b) * unat (count32 (bucket_count other b))) bs)"

definition mergeable :: "TopkVal \<Rightarrow> bool" where
  "mergeable other \<longleftrightarrow>
     (\<forall>b \<in> set (buckets other).
        (case bucket_store other b of None \<Rightarrow> False
         | Some bk \<Rightarrow> count32 (count bk) \<noteq> 0 \<and>
             (\<forall>a \<in> set (elements bk). element_store other a \<noteq> None)))"

subsection \<open>The payload of a serialized sketch\<close>

text \<open>
  What a payload says, read without building anything: \<open>parse_buckets\<close> reads bucket
  records (the number \<open>k\<close> of entries, the count, then \<open>k\<close> entries of an epsilon and a
  datum that converts to a value of the type \<open>ty\<close>) as long as fewer than \<open>n\<close> entries
  have been read, and wants the list to end there. \<open>Rejected\<close> is \<^verbatim>\<open>return false\<close>.
  \<open>Aborted\<close> stands for the two ways in which \<^verbatim>\<open>DoUnserialize\<close> stops without
  returning: a value that an earlier entry has already brought (the assertion on
  \<^verbatim>\<open>elementDict->Lookup\<close>), and an entry in a payload whose type is nil (there is no
  hash to make its key).
\<close>

datatype 'a parse = Aborted | Rejected | Parsed 'a

fun parse_elements ::
  "Broker \<Rightarrow> TypeTag option \<Rightarrow> Val list \<Rightarrow> nat \<Rightarrow> BrokerData list
     \<Rightarrow> ((Val \<times> 64 word) list \<times> Val list \<times> BrokerData list) parse" where
  "parse_elements br ty seen 0 rest = Parsed ([], seen, rest)"
| "parse_elements br ty seen (Suc j) rest =
     (case rest of
        BCount eps # d # rest' \<Rightarrow>
          (case ToVal br d ty of
             None \<Rightarrow> Rejected
           | Some v \<Rightarrow>
               if ty = None \<or> v \<in> set seen then Aborted
               else (case parse_elements br ty (v # seen) j rest' of
                       Parsed (es, seen', r) \<Rightarrow> Parsed ((v, eps) # es, seen', r)
                     | Aborted \<Rightarrow> Aborted
                     | Rejected \<Rightarrow> Rejected))
      | _ \<Rightarrow> Rejected)"

lemma parse_elements_length:
  "parse_elements br ty seen j rest = Parsed (es, seen', r) \<Longrightarrow> length r \<le> length rest"
proof (induction j arbitrary: ty seen rest es)
  case 0
  then show ?case by simp
next
  case (Suc j)
  from Suc.prems show ?case
    by (auto split: list.splits BrokerData.splits option.splits if_splits parse.splits
          dest!: Suc.IH)
qed

function parse_buckets ::
  "Broker \<Rightarrow> TypeTag option \<Rightarrow> 64 word \<Rightarrow> Val list \<Rightarrow> 64 word \<Rightarrow> BrokerData list
     \<Rightarrow> (64 word \<times> (Val \<times> 64 word) list) list parse" where
  "parse_buckets br ty n seen i rest =
     (if i < n
      then (case rest of
              BCount k # BCount cnt # rest' \<Rightarrow>
                (case parse_elements br ty seen (unat k) rest' of
                   Parsed (es, seen', r) \<Rightarrow>
                     (case parse_buckets br ty n seen' (i + k) r of
                        Parsed recs \<Rightarrow> Parsed ((cnt, es) # recs)
                      | Aborted \<Rightarrow> Aborted
                      | Rejected \<Rightarrow> Rejected)
                 | Aborted \<Rightarrow> Aborted
                 | Rejected \<Rightarrow> Rejected)
            | _ \<Rightarrow> Rejected)
      else if rest = [] then Parsed [] else Rejected)"
  by pat_completeness auto

termination
  by (relation "measure (\<lambda>(br, ty, n, seen, i, rest). length rest)")
     (auto dest!: parse_elements_length)

declare parse_buckets.simps [simp del]

text \<open>
  The header and the records of a payload, and the same five observations of the sketch
  that \<^verbatim>\<open>DoUnserialize\<close> leaves when it returns true.
\<close>

definition payload_sketch ::
  "Broker \<Rightarrow> BrokerData
     \<Rightarrow> (64 word \<times> 64 word \<times> bool \<times> TypeTag option \<times> (64 word \<times> (Val \<times> 64 word) list) list) parse" where
  "payload_sketch br data =
     (case data of
        BList (BCount cap # BCount n # BBool p # t # rest) \<Rightarrow>
          (if t = BNil
           then map_parse (\<lambda>recs. (cap, n, p, None, recs)) (parse_buckets br None n [] 0 rest)
           else (case UnserializeType br t of
                   None \<Rightarrow> Rejected
                 | Some ty \<Rightarrow>
                     map_parse (\<lambda>recs. (cap, n, p, Some ty, recs))
                       (parse_buckets br (Some ty) n [] 0 rest)))
      | _ \<Rightarrow> Rejected)"

definition outcome ::
  "error + (bool \<times> TopkVal)
     \<Rightarrow> (64 word \<times> 64 word \<times> bool \<times> TypeTag option \<times> (64 word \<times> (Val \<times> 64 word) list) list) parse" where
  "outcome r =
     (case r of
        Inl _ \<Rightarrow> Aborted
      | Inr (ok, s) \<Rightarrow>
          if ok then Parsed (size_cap s, numElements s, pruned s, type s, chain_view s)
          else Rejected)"

text \<open>
  The sketch while it is being filled from a payload: the buckets of the chain and their
  elements are live and below the allocator, and the table holds exactly the values
  \<open>seen\<close>.
\<close>

definition loading :: "Val list \<Rightarrow> TopkVal \<Rightarrow> bool" where
  "loading seen s \<longleftrightarrow>
     distinct (buckets s) \<and>
     (\<forall>b \<in> set (buckets s). b < next_addr s \<and> bucket_store s b \<noteq> None \<and>
        (\<forall>e \<in> set (bucket_elements s b). e < next_addr s)) \<and>
     (\<forall>v. (Lookup s (HashKey v) = None) = (v \<notin> set seen))"

text \<open>
  The wire format that \<^verbatim>\<open>DoSerialize\<close> writes behind the header, for the buckets as
  the chain shows them; what the two functions need of the conversions of \<open>Broker\<close> for a
  value and for a type to come back as they went; and the values held by a sketch.
\<close>

definition encode_entries :: "Broker \<Rightarrow> (Val \<times> 64 word) list \<Rightarrow> BrokerData list" where
  "encode_entries br ves = concat (map (\<lambda>(v, eps). [BCount eps, the (Convert br v)]) ves)"

definition encode_records ::
  "Broker \<Rightarrow> (64 word \<times> (Val \<times> 64 word) list) list \<Rightarrow> BrokerData list" where
  "encode_records br recs =
     concat (map (\<lambda>(cnt, ves). BCount (of_nat (length ves)) # BCount cnt # encode_entries br ves) recs)"

definition convertible :: "Broker \<Rightarrow> TypeTag option \<Rightarrow> Val \<Rightarrow> bool" where
  "convertible br ty v =
     (case Convert br v of None \<Rightarrow> False | Some d \<Rightarrow> ToVal br d ty = Some v)"

definition sketch_values :: "TopkVal \<Rightarrow> Val list" where
  "sketch_values s = concat (map (bucket_values s) (buckets s))"

definition type_codec :: "Broker \<Rightarrow> TypeTag option \<Rightarrow> bool" where
  "type_codec br ty =
     (case ty of None \<Rightarrow> True
      | Some t \<Rightarrow>
          (case SerializeType br t of None \<Rightarrow> False
           | Some d \<Rightarrow> d \<noteq> BNil \<and> UnserializeType br d = Some t))"

definition entry_of :: "TopkVal \<Rightarrow> addr \<Rightarrow> Val \<times> 64 word" where
  "entry_of s e = (val (the (element_store s e)), epsilon (the (element_store s e)))"

text \<open>
  The end of a round of the pruning loop that has emptied the first bucket:
  \<^verbatim>\<open>delete b; buckets.pop_front()\<close>.
\<close>

definition drop_bucket :: "TopkVal \<Rightarrow> addr \<Rightarrow> TopkVal" where
  "drop_bucket s b =
     s\<lparr> bucket_store := (bucket_store s)(b := None), buckets := tl (buckets s) \<rparr>"

section \<open>Properties\<close>

subsection \<open>Encountered on a sketch of capacity 0\<close>

lemma ebind_simps [simp]:
  "ebind (Inr x) f = f x"
  "ebind (Inl e) f = Inl e"
  by (simp_all add: ebind_def)

lemma ebind_Inr_iff: "ebind m f = Inr y \<longleftrightarrow> (\<exists>x. m = Inr x \<and> f x = Inr y)"
  by (cases m) simp_all

text \<open>
  Claim C3. An \<^verbatim>\<open>Encountered\<close> on the default-constructed sketch (capacity 0, nothing
  retained) is said to insert nothing, replace nothing and complete. In the code the
  value is not in the table and \<^verbatim>\<open>numElements < size\<close> is \<open>0 < 0\<close>, so the call takes
  the replacement branch and reads \<^verbatim>\<open>*buckets.begin()\<close> of the empty chain: it reaches
  an undefined step instead of returning.
\<close>

theorem Encountered_capacity_zero:
  "Encountered TopkVal_default encountered = Inl (Undefined ''begin of empty list'')"
  by (simp add: Encountered_def TopkVal_default_def TopkVal_init_def Typify_def assert_def
        GetHash_def Lookup_def new_Element_def Encountered_replace_def)

subsection \<open>The flag pruned\<close>

lemma same_fields_refl [simp]: "same_fields s s"
  by (simp add: same_fields_def)

lemma same_fields_trans: "same_fields s s' \<Longrightarrow> same_fields s' s'' \<Longrightarrow> same_fields s s''"
  by (simp add: same_fields_def)

lemma set_elements_fields: "set_elements s b f = Inr s' \<Longrightarrow> same_fields s s'"
  by (auto simp: set_elements_def ebind_Inr_iff same_fields_def)

lemma set_parent_fields: "set_parent s e b = Inr s' \<Longrightarrow> same_fields s s'"
  by (auto simp: set_parent_def ebind_Inr_iff same_fields_def)

lemma set_epsilon_fields: "set_epsilon s e f = Inr s' \<Longrightarrow> same_fields s s'"
  by (auto simp: set_epsilon_def ebind_Inr_iff same_fields_def)

lemma IncrementCounter_fields:
  "IncrementCounter s e cnt = Inr s' \<Longrightarrow> same_fields s s'"
  by (auto simp: IncrementCounter_def ebind_Inr_iff Let_def new_Bucket_def delete_Bucket_def
        same_fields_def
      split: option.splits if_splits prod.splits
      dest!: set_elements_fields set_parent_fields)

lemma Encountered_add_fields:
  "Encountered_add s key e = Inr s' \<Longrightarrow> same_fields s s'"
  by (auto simp: Encountered_add_def ebind_Inr_iff Let_def new_Bucket_def Insert_def
        same_fields_def assert_def
      split: option.splits if_splits prod.splits list.splits
      dest!: set_elements_fields set_parent_fields)

lemma Encountered_replace_fields:
  "Encountered_replace s key e = Inr s' \<Longrightarrow> same_fields s s'"
  by (auto simp: Encountered_replace_def ebind_Inr_iff Let_def Insert_def RemoveEntry_def
        delete_Element_def same_fields_def assert_def
      split: option.splits if_splits prod.splits list.splits
      dest!: set_elements_fields set_parent_fields set_epsilon_fields)

lemma Encountered_pruned:
  "Encountered s v = Inr s' \<Longrightarrow> pruned s' = pruned s \<and> size_cap s' = size_cap s"
  by (auto simp: Encountered_def ebind_Inr_iff Let_def Typify_def assert_def new_Element_def
        same_fields_def
      split: option.splits if_splits prod.splits
      dest!: IncrementCounter_fields Encountered_add_fields Encountered_replace_fields)

lemma merge_element_fields:
  "merge_element s e c = Inr s' \<Longrightarrow> same_fields s s'"
  by (auto simp: merge_element_def ebind_Inr_iff Let_def new_Element_def new_Bucket_def Insert_def
        same_fields_def assert_def
      split: option.splits if_splits prod.splits list.splits
      dest!: IncrementCounter_fields set_elements_fields set_parent_fields set_epsilon_fields)

lemma merge_elements_fields:
  "merge_elements s other c es = Inr s' \<Longrightarrow> same_fields s s'"
  by (induction es arbitrary: s)
     (auto simp: ebind_Inr_iff dest!: merge_element_fields intro: same_fields_trans)

lemma merge_buckets_fields:
  "merge_buckets s other bs = Inr s' \<Longrightarrow> same_fields s s'"
  by (induction bs arbitrary: s)
     (auto simp: ebind_Inr_iff dest!: merge_elements_fields intro: same_fields_trans)

lemma prune_step_fields:
  "prune_step s = Inr s' \<Longrightarrow> pruned s' \<and> size_cap s' = size_cap s \<and> type s' = type s"
  by (auto simp: prune_step_def ebind_Inr_iff Let_def RemoveEntry_def delete_Element_def
        delete_Bucket_def same_fields_def assert_def
      split: option.splits if_splits prod.splits list.splits
      dest!: set_elements_fields)

lemma prune_loop_pruned:
  "prune_loop s = Inr s' \<Longrightarrow> pruned s' = (pruned s \<or> size_cap s < numElements s)"
proof (induction s rule: prune_loop.induct)
  case (1 s)
  show ?case
  proof (cases "size_cap s < numElements s")
    case True
    with "1.prems" obtain s1 where s1: "prune_step s = Inr s1" "prune_loop s1 = Inr s'"
      by (auto simp: prune_loop.simps [of s] split: sum.splits)
    from "1.IH" [OF True s1] prune_step_fields [OF s1(1)] True show ?thesis by simp
  next
    case False
    with "1.prems" show ?thesis by (simp add: prune_loop.simps [of s])
  qed
qed

lemma Merge_untyped:
  "type other = None \<Longrightarrow>
   Merge s other doPrune =
     ebind (assert (numElements other = 0) ''value->numElements == 0'') (\<lambda>_. Inr s)"
  by (simp add: Merge_def)

lemma Merge_prune:
  "type other \<noteq> None \<Longrightarrow> Merge s other True = ebind (Merge s other False) prune_loop"
  by (auto simp: Merge_def ebind_def assert_def split: option.splits sum.splits)

lemma Merge_False_fields:
  "Merge s other False = Inr s' \<Longrightarrow> pruned s' = pruned s \<and> size_cap s' = size_cap s"
  by (auto simp: Merge_def ebind_Inr_iff Typify_def assert_def same_fields_def
      split: option.splits if_splits dest!: merge_buckets_fields)

text \<open>
  Claim C2, as stated: the flag \<open>pruned\<close> is set by an eviction during \<^verbatim>\<open>Encountered\<close>
  as well as by the pruning of a merge, and after the stream A, B, C, D on a sketch of
  capacity 3 it is true. The code runs the stream to the chain B, C at count 1 and D at
  count 2 with epsilon 1 (A has been evicted), and \<open>pruned\<close> is still false.
\<close>

theorem pruned_after_eviction_counterexample:
  "observe (Encountered_all (TopkVal_init 3)
      [StringVal ''A'', StringVal ''B'', StringVal ''C'', StringVal ''D'']) =
   Inr ([(1, [(StringVal ''B'', 0), (StringVal ''C'', 0)]), (2, [(StringVal ''D'', 1)])], 3, False)"
  by code_simp

text \<open>
  Claim C2, amended: \<^verbatim>\<open>Encountered\<close> never changes \<open>pruned\<close>, also when it evicts; a
  merge without pruning does not change it; a merge with pruning returns it true exactly
  when it was true before or the pruning loop has discarded an element, that is, when the
  other sketch has a type and the merged sketch holds more elements than \<open>size\<close>. So
  neither operation resets the flag.
\<close>

theorem pruned_flag:
  assumes "Encountered s v = Inr s1"
    and "Merge s other False = Inr s2"
    and "Merge s other True = Inr s3"
  shows "pruned s1 = pruned s \<and> pruned s2 = pruned s \<and>
         pruned s3 = (pruned s \<or> type other \<noteq> None \<and> size_cap s2 < numElements s2)"
proof (cases "type other")
  case None
  with assms(2,3) have "s2 = s" "s3 = s"
    by (auto simp: Merge_untyped ebind_Inr_iff)
  with None Encountered_pruned [OF assms(1)] show ?thesis by simp
next
  case (Some t)
  with assms(2,3) have "prune_loop s2 = Inr s3"
    by (simp add: Merge_prune)
  from prune_loop_pruned [OF this] Merge_False_fields [OF assms(2)]
    Encountered_pruned [OF assms(1)] Some
  show ?thesis by simp
qed

theorem pruned_flag_witness:
  "\<not> pruned (projr (Encountered
        (sketch_of 3 [StringVal ''A'', StringVal ''B'', StringVal ''C'']) (StringVal ''D''))) \<and>
   \<not> pruned (projr (Merge
        (sketch_of 3 [StringVal ''A'', StringVal ''B'', StringVal ''C''])
        (sketch_of 3 [StringVal ''D'']) False)) \<and>
   pruned (projr (Merge
        (sketch_of 3 [StringVal ''A'', StringVal ''B'', StringVal ''C''])
        (sketch_of 3 [StringVal ''D'']) True))"
proof -
  let ?s = "sketch_of 3 [StringVal ''A'', StringVal ''B'', StringVal ''C'']"
  let ?other = "sketch_of 3 [StringVal ''D'']"
  have "\<not> isl (Encountered ?s (StringVal ''D''))" by code_simp
  then have e: "Encountered ?s (StringVal ''D'') = Inr (projr (Encountered ?s (StringVal ''D'')))"
    by simp
  have "\<not> isl (Merge ?s ?other False)" by code_simp
  then have m2: "Merge ?s ?other False = Inr (projr (Merge ?s ?other False))"
    by simp
  have "\<not> isl (Merge ?s ?other True)" by code_simp
  then have m3: "Merge ?s ?other True = Inr (projr (Merge ?s ?other True))"
    by simp
  have p: "\<not> pruned ?s" by code_simp
  have t: "type ?other \<noteq> None" by code_simp
  have n: "size_cap (projr (Merge ?s ?other False)) < numElements (projr (Merge ?s ?other False))"
    by code_simp
  from pruned_flag [OF e m2 m3] p t n show ?thesis by simp
qed

lemma scan_buckets_eq:
  "\<forall>a \<in> set as. h a \<noteq> None \<Longrightarrow>
   scan_buckets h target as =
     Inr (takeWhile (\<lambda>a. count (the (h a)) < target) as, dropWhile (\<lambda>a. count (the (h a)) < target) as)"
  by (induction as) auto

lemma takeWhile_bucket_count:
  "\<forall>a \<in> set as. bucket_store s a \<noteq> None \<Longrightarrow>
   takeWhile (\<lambda>a. count (the (bucket_store s a)) < t) as = takeWhile (\<lambda>a. bucket_count s a < t) as"
  by (intro takeWhile_cong) (auto simp: bucket_count_def)

lemma dropWhile_bucket_count:
  "\<forall>a \<in> set as. bucket_store s a \<noteq> None \<Longrightarrow>
   dropWhile (\<lambda>a. count (the (bucket_store s a)) < t) as = dropWhile (\<lambda>a. bucket_count s a < t) as"
  by (intro dropWhile_cong) (auto simp: bucket_count_def)

lemma set_after: "set (tl (dropWhile P xs)) \<subseteq> set xs"
  by (metis list.set_sel(2) set_dropWhileD subsetI tl_Nil)

lemma distinct_after: "distinct xs \<Longrightarrow> cb \<in> set xs \<Longrightarrow> cb \<notin> set (tl (dropWhile (\<lambda>x. x \<noteq> cb) xs))"
  by (induction xs) auto

lemma IncrementCounter_found:
  assumes "element_store s e = Some el" "parent el = Some cb" "bucket_store s cb = Some cbk"
    "cb \<in> set (buckets s)"
    "scan_buckets (bucket_store s) (count cbk + ucast cnt) (tl (dropWhile (\<lambda>x. x \<noteq> cb) (buckets s)))
       = Inr (skipped, nb # rest')"
    "bucket_store s nb = Some nbk" "count nbk = count cbk + ucast cnt" "nb \<noteq> cb"
  shows "IncrementCounter s e cnt =
     Inr (s\<lparr> buckets := (if removeAll e (elements cbk) = [] then removeAll cb (buckets s) else buckets s),
            bucket_store := ((bucket_store s)
               (nb \<mapsto> nbk\<lparr> elements := elements nbk @ [e] \<rparr>))
               (cb := if removeAll e (elements cbk) = [] then None
                      else Some (cbk\<lparr> elements := removeAll e (elements cbk) \<rparr>)),
            element_store := (element_store s)(e \<mapsto> el\<lparr> parent := Some nb \<rparr>) \<rparr>)"
  using assms
  by (simp add: IncrementCounter_def deref_element_def deref_bucket_def Let_def find_nextBucket_def
        set_elements_def set_parent_def delete_Bucket_def fun_upd_twist)

lemma IncrementCounter_new:
  assumes "element_store s e = Some el" "parent el = Some cb" "bucket_store s cb = Some cbk"
    "cb \<in> set (buckets s)"
    "scan_buckets (bucket_store s) (count cbk + ucast cnt) (tl (dropWhile (\<lambda>x. x \<noteq> cb) (buckets s)))
       = Inr (skipped, rest)"
    "find_nextBucket s (count cbk + ucast cnt) rest = None" "next_addr s \<noteq> cb"
  shows "IncrementCounter s e cnt =
     Inr (s\<lparr> buckets := (if removeAll e (elements cbk) = []
                          then removeAll cb (takeWhile (\<lambda>x. x \<noteq> cb) (buckets s) @ cb # skipped @ next_addr s # rest)
                          else takeWhile (\<lambda>x. x \<noteq> cb) (buckets s) @ cb # skipped @ next_addr s # rest),
            bucket_store := ((bucket_store s)
               (next_addr s \<mapsto> \<lparr> elements = [e], count = count cbk + ucast cnt \<rparr>))
               (cb := if removeAll e (elements cbk) = [] then None
                      else Some (cbk\<lparr> elements := removeAll e (elements cbk) \<rparr>)),
            element_store := (element_store s)(e \<mapsto> el\<lparr> parent := Some (next_addr s) \<rparr>),
            next_addr := Suc (next_addr s) \<rparr>)"
  using assms
  by (simp add: IncrementCounter_def deref_element_def deref_bucket_def Let_def new_Bucket_def
        set_elements_def set_parent_def delete_Bucket_def fun_upd_twist)

lemma move_element_simps [simp]:
  "buckets (move_element s e cb nb) = (if removeAll e (bucket_elements s cb) = [] then removeAll cb (buckets s) else buckets s)"
  "elementDict (move_element s e cb nb) = elementDict s"
  "size_cap (move_element s e cb nb) = size_cap s"
  "numElements (move_element s e cb nb) = numElements s"
  "pruned (move_element s e cb nb) = pruned s"
  "type (move_element s e cb nb) = type s"
  "next_addr (move_element s e cb nb) = next_addr s"
  "element_store (move_element s e cb nb) = (element_store s)(e := map_option (\<lambda>el. el\<lparr> parent := Some nb \<rparr>) (element_store s e))"
  by (simp_all add: move_element_def)

lemma bucket_elements_move:
  "nb \<noteq> cb \<Longrightarrow> bucket_elements (move_element s e cb nb) b =
     (if b = cb then removeAll e (bucket_elements s cb)
      else if b = nb \<and> bucket_store s nb \<noteq> None then bucket_elements s nb @ [e]
      else bucket_elements s b)"
  by (auto simp: move_element_def bucket_elements_def split: option.splits)

lemma bucket_count_move:
  "nb \<noteq> cb \<Longrightarrow> bucket_count (move_element s e cb nb) b =
     (if b = cb \<and> removeAll e (bucket_elements s cb) = [] then 0 else bucket_count s b)"
  by (auto simp: move_element_def bucket_count_def split: option.splits)

lemma removeAll_neq_Nil: "x \<in> set xs \<Longrightarrow> x \<noteq> e \<Longrightarrow> removeAll e xs \<noteq> []"
  by (induction xs) auto

lemma element_ok_unique:
  "element_ok s b e \<Longrightarrow> element_ok s b' e \<Longrightarrow> b' = b"
  by (auto simp: element_ok_def split: option.splits)

lemma valid_upto_move:
  assumes v: "valid_upto {nb} s" and cb: "cb \<in> set (buckets s)" and nb: "nb \<in> set (buckets s)"
    and neq: "nb \<noteq> cb" and e: "e \<in> set (bucket_elements s cb)"
  shows "valid_upto {} (move_element s e cb nb)"
proof -
  let ?s' = "move_element s e cb nb"
  from v have ok: "\<And>b x. b \<in> set (buckets s) \<Longrightarrow> x \<in> set (bucket_elements s b) \<Longrightarrow> element_ok s b x"
    by (simp add: valid_upto_def)
  from v nb have nbs: "bucket_store s nb \<noteq> None" by (simp add: valid_upto_def)
  have be: "\<And>b. bucket_elements ?s' b =
     (if b = cb then removeAll e (bucket_elements s cb)
      else if b = nb then bucket_elements s nb @ [e]
      else bucket_elements s b)"
    using neq nbs by (simp add: bucket_elements_move)
  have e_only: "\<And>b. b \<in> set (buckets s) \<Longrightarrow> e \<in> set (bucket_elements s b) \<Longrightarrow> b = cb"
    using ok cb e element_ok_unique by blast
  have sub: "set (buckets ?s') \<subseteq> set (buckets s)" by auto
  have c1: "distinct (buckets ?s')" using v by (simp add: valid_upto_def distinct_removeAll)
  have c2: "\<forall>b \<in> set (buckets ?s'). b < next_addr ?s' \<and> bucket_store ?s' b \<noteq> None \<and> (b \<notin> {} \<longrightarrow> bucket_elements ?s' b \<noteq> [])"
  proof
    fix b assume b: "b \<in> set (buckets ?s')"
    with sub have bs: "b \<in> set (buckets s)" by auto
    with v have old: "b < next_addr s" "bucket_store s b \<noteq> None" "b \<noteq> nb \<Longrightarrow> bucket_elements s b \<noteq> []"
      by (auto simp: valid_upto_def)
    from b have rem: "b = cb \<Longrightarrow> removeAll e (bucket_elements s cb) \<noteq> []"
      by (auto split: if_splits)
    have "bucket_store ?s' b \<noteq> None"
      using old(2) rem by (cases "b = cb") (auto simp: move_element_def)
    moreover have "bucket_elements ?s' b \<noteq> []"
      using old(3) rem by (simp add: be)
    ultimately show "b < next_addr ?s' \<and> bucket_store ?s' b \<noteq> None \<and> (b \<notin> {} \<longrightarrow> bucket_elements ?s' b \<noteq> [])"
      using old(1) by simp
  qed
  have c3: "\<forall>b \<in> set (buckets ?s'). distinct (bucket_elements ?s' b)"
  proof
    fix b assume b: "b \<in> set (buckets ?s')"
    with sub have bs: "b \<in> set (buckets s)" by auto
    with v have d: "distinct (bucket_elements s b)" by (simp add: valid_upto_def)
    from v nb have dn: "distinct (bucket_elements s nb)" by (simp add: valid_upto_def)
    from e_only [OF nb] neq have "e \<notin> set (bucket_elements s nb)" by auto
    with d dn show "distinct (bucket_elements ?s' b)"
      by (auto simp: be distinct_removeAll)
  qed
  have c4: "\<forall>b \<in> set (buckets ?s'). \<forall>x \<in> set (bucket_elements ?s' b). element_ok ?s' b x"
  proof (intro ballI)
    fix b x assume b: "b \<in> set (buckets ?s')" and x: "x \<in> set (bucket_elements ?s' b)"
    from b sub have bs: "b \<in> set (buckets s)" by auto
    show "element_ok ?s' b x"
    proof (cases "x = e")
      case True
      with x bs e_only have "b = nb" by (auto simp: be split: if_splits)
      with True ok [OF cb e] show ?thesis
        by (auto simp: element_ok_def split: option.splits)
    next
      case False
      with x have "x \<in> set (bucket_elements s b)" by (auto simp: be split: if_splits)
      from ok [OF bs this] False show ?thesis
        by (auto simp: element_ok_def split: option.splits)
    qed
  qed
  have c5: "\<forall>ke \<in> set (elementDict ?s'). entry_ok ?s' ke"
  proof
    fix ke assume "ke \<in> set (elementDict ?s')"
    with v have old: "entry_ok s ke" by (simp add: valid_upto_def)
    then obtain b where b: "b \<in> set (buckets s)" "snd ke \<in> set (bucket_elements s b)"
      by (auto simp: entry_ok_def)
    have "\<exists>b' \<in> set (buckets ?s'). snd ke \<in> set (bucket_elements ?s' b')"
    proof (cases "snd ke = e")
      case True
      have "nb \<in> set (buckets ?s')" using nb neq by auto
      with True show ?thesis by (auto simp: be neq)
    next
      case False
      with b have "snd ke \<in> set (bucket_elements ?s' b)" by (auto simp: be)
      moreover have "b \<in> set (buckets ?s')" using b False by (auto dest: removeAll_neq_Nil)
      ultimately show ?thesis by blast
    qed
    with old show "entry_ok ?s' ke"
      by (auto simp: entry_ok_def split: option.splits)
  qed
  have c6: "buckets ?s' \<noteq> [] \<longrightarrow> type ?s' \<noteq> None"
    using v cb by (auto simp: valid_upto_def)
  from c1 c2 c3 c4 c5 c6 show ?thesis unfolding valid_upto_def by blast
qed

lemma with_new_bucket_simps [simp]:
  "buckets (with_new_bucket s c bl) = bl"
  "elementDict (with_new_bucket s c bl) = elementDict s"
  "size_cap (with_new_bucket s c bl) = size_cap s"
  "numElements (with_new_bucket s c bl) = numElements s"
  "pruned (with_new_bucket s c bl) = pruned s"
  "type (with_new_bucket s c bl) = type s"
  "next_addr (with_new_bucket s c bl) = Suc (next_addr s)"
  "element_store (with_new_bucket s c bl) = element_store s"
  "bucket_store (with_new_bucket s c bl) = (bucket_store s)(next_addr s \<mapsto> \<lparr> elements = [], count = c \<rparr>)"
  by (simp_all add: with_new_bucket_def)

lemma bucket_elements_new:
  "bucket_elements (with_new_bucket s c bl) b = (if b = next_addr s then [] else bucket_elements s b)"
  by (simp add: bucket_elements_def)

lemma bucket_count_new:
  "bucket_count (with_new_bucket s c bl) b = (if b = next_addr s then c else bucket_count s b)"
  by (simp add: bucket_count_def)

lemma element_ok_new:
  "element_ok s b x \<Longrightarrow> element_ok (with_new_bucket s c bl) b x"
  by (auto simp: element_ok_def split: option.splits)

lemma valid_upto_new:
  assumes v: "valid_upto {} s" and bl: "buckets s = pre @ post" and ty: "type s \<noteq> None"
  shows "valid_upto {next_addr s} (with_new_bucket s c (pre @ next_addr s # post))"
proof -
  let ?n = "next_addr s"
  let ?s' = "with_new_bucket s c (pre @ ?n # post)"
  from v have fresh: "?n \<notin> set (buckets s)" by (auto simp: valid_upto_def)
  have mem: "b \<in> set (buckets ?s') \<Longrightarrow> b = ?n \<or> b \<noteq> ?n \<and> b \<in> set (buckets s)" for b
    using fresh by (auto simp: bl)
  have c1: "distinct (buckets ?s')" using v fresh by (auto simp: valid_upto_def bl)
  have c2: "\<forall>b \<in> set (buckets ?s'). b < next_addr ?s' \<and> bucket_store ?s' b \<noteq> None \<and> (b \<notin> {?n} \<longrightarrow> bucket_elements ?s' b \<noteq> [])"
  proof
    fix b assume "b \<in> set (buckets ?s')"
    from mem [OF this] show "b < next_addr ?s' \<and> bucket_store ?s' b \<noteq> None \<and> (b \<notin> {?n} \<longrightarrow> bucket_elements ?s' b \<noteq> [])"
    proof
      assume "b = ?n" then show ?thesis by simp
    next
      assume 2: "b \<noteq> ?n \<and> b \<in> set (buckets s)"
      with v have "b < ?n" "bucket_store s b \<noteq> None" "bucket_elements s b \<noteq> []"
        by (auto simp: valid_upto_def)
      with 2 show ?thesis by (simp add: bucket_elements_new)
    qed
  qed
  have c3: "\<forall>b \<in> set (buckets ?s'). distinct (bucket_elements ?s' b)"
  proof
    fix b assume "b \<in> set (buckets ?s')"
    from mem [OF this] v show "distinct (bucket_elements ?s' b)"
      by (auto simp: valid_upto_def bucket_elements_new)
  qed
  have c4: "\<forall>b \<in> set (buckets ?s'). \<forall>x \<in> set (bucket_elements ?s' b). element_ok ?s' b x"
  proof (intro ballI)
    fix b x assume "b \<in> set (buckets ?s')" and x: "x \<in> set (bucket_elements ?s' b)"
    from mem [OF this(1)] x v have "element_ok s b x"
      by (auto simp: valid_upto_def bucket_elements_new)
    then show "element_ok ?s' b x" by (rule element_ok_new)
  qed
  have c5: "\<forall>ke \<in> set (elementDict ?s'). entry_ok ?s' ke"
  proof
    fix ke assume "ke \<in> set (elementDict ?s')"
    with v have old: "entry_ok s ke" by (simp add: valid_upto_def)
    then obtain b where b: "b \<in> set (buckets s)" "snd ke \<in> set (bucket_elements s b)"
      by (auto simp: entry_ok_def)
    with fresh have "b \<noteq> ?n" by auto
    with b have "b \<in> set (buckets ?s')" "snd ke \<in> set (bucket_elements ?s' b)"
      by (auto simp: bl bucket_elements_new)
    with old show "entry_ok ?s' ke"
      unfolding entry_ok_def by (metis with_new_bucket_simps(8))
  qed
  have c6: "buckets ?s' \<noteq> [] \<longrightarrow> type ?s' \<noteq> None"
    using ty by simp
  from c1 c2 c3 c4 c5 c6 show ?thesis unfolding valid_upto_def by blast
qed

lemma split_at_bucket:
  assumes "distinct (pre @ cb # post)"
  shows "takeWhile (\<lambda>x. x \<noteq> cb) (pre @ cb # post) = pre"
    and "tl (dropWhile (\<lambda>x. x \<noteq> cb) (pre @ cb # post)) = post"
proof -
  from assms have "\<forall>x \<in> set pre. x \<noteq> cb" by auto
  then show "takeWhile (\<lambda>x. x \<noteq> cb) (pre @ cb # post) = pre"
    and "tl (dropWhile (\<lambda>x. x \<noteq> cb) (pre @ cb # post)) = post"
    by (simp_all add: takeWhile_append2 dropWhile_append2)
qed

lemma IncrementCounter_valid_eq:
  assumes v: "valid_upto {} s" and bl: "buckets s = pre @ cb # post"
    and e: "e \<in> set (bucket_elements s cb)"
  shows "IncrementCounter s e cnt = Inr
     (if reuse s (inc_target s cb cnt) post
      then move_element s e cb (hd (dropWhile (\<lambda>b. bucket_count s b < inc_target s cb cnt) post))
      else move_element
             (with_new_bucket s (inc_target s cb cnt)
                (pre @ cb # takeWhile (\<lambda>b. bucket_count s b < inc_target s cb cnt) post
                   @ next_addr s # dropWhile (\<lambda>b. bucket_count s b < inc_target s cb cnt) post))
             e cb (next_addr s))"
proof -
  have cb: "cb \<in> set (buckets s)" by (simp add: bl)
  from v cb e have eok: "element_ok s cb e" by (auto simp: valid_upto_def)
  then obtain el where el: "element_store s e = Some el" "parent el = Some cb"
    by (auto simp: element_ok_def split: option.splits)
  from v cb obtain cbk where cbk: "bucket_store s cb = Some cbk"
    by (auto simp: valid_upto_def)
  from v have dist: "distinct (pre @ cb # post)" by (simp add: valid_upto_def bl)
  note sp = split_at_bucket [OF dist, folded bl]
  have post_ok: "\<forall>a \<in> set post. bucket_store s a \<noteq> None"
    using v by (auto simp: valid_upto_def bl)
  from v cb have fresh: "next_addr s \<noteq> cb" by (auto simp: valid_upto_def)
  define target where "target = inc_target s cb cnt"
  have t: "count cbk + ucast cnt = target" by (simp add: target_def inc_target_def bucket_count_def cbk)
  define skipped where "skipped = takeWhile (\<lambda>b. bucket_count s b < target) post"
  define rest where "rest = dropWhile (\<lambda>b. bucket_count s b < target) post"
  have scan: "scan_buckets (bucket_store s) (count cbk + ucast cnt) (tl (dropWhile (\<lambda>x. x \<noteq> cb) (buckets s))) = Inr (skipped, rest)"
    unfolding sp t skipped_def rest_def
    by (simp add: scan_buckets_eq [OF post_ok] takeWhile_bucket_count [OF post_ok] dropWhile_bucket_count [OF post_ok])
  have rest_sub: "set rest \<subseteq> set post" unfolding rest_def by (auto dest: set_dropWhileD)
  show ?thesis
  proof (cases "reuse s target post")
    case True
    then obtain nb rest' where r: "rest = nb # rest'" and c: "bucket_count s nb = target"
      unfolding reuse_def rest_def [symmetric] by (cases rest) auto
    from r rest_sub post_ok obtain nbk where nbk: "bucket_store s nb = Some nbk" by auto
    from r rest_sub dist have neq: "nb \<noteq> cb" by auto
    from c nbk have cn: "count nbk = count cbk + ucast cnt" by (simp add: bucket_count_def t)
    have "IncrementCounter s e cnt = Inr (move_element s e cb nb)"
      unfolding IncrementCounter_found [OF el cbk cb scan [unfolded r] nbk cn neq]
      using neq by (simp add: move_element_def bucket_elements_def cbk nbk el)
    with True r show ?thesis by (simp add: target_def [symmetric] rest_def [symmetric])
  next
    case False
    have fnb: "find_nextBucket s (count cbk + ucast cnt) rest = None"
    proof (cases rest)
      case Nil then show ?thesis by (simp add: find_nextBucket_def)
    next
      case (Cons a as)
      with False have "bucket_count s a \<noteq> target" by (simp add: reuse_def rest_def [symmetric])
      with Cons show ?thesis by (auto simp: find_nextBucket_def t bucket_count_def split: option.splits)
    qed
    have "IncrementCounter s e cnt = Inr (move_element (with_new_bucket s target (pre @ cb # skipped @ next_addr s # rest)) e cb (next_addr s))"
      unfolding IncrementCounter_new [OF el cbk cb scan fnb fresh]
      using fresh by (simp add: move_element_def with_new_bucket_def bucket_elements_def cbk el sp t)
    with False show ?thesis by (simp add: target_def [symmetric] rest_def [symmetric] skipped_def [symmetric])
  qed
qed

lemma valid_upto_bucket:
  "valid_upto X s \<Longrightarrow> b \<in> set (buckets s) \<Longrightarrow> \<exists>bk. bucket_store s b = Some bk"
  by (auto simp: valid_upto_def)

lemma valid_upto_mono: "valid_upto {} s \<Longrightarrow> valid_upto X s"
  by (simp add: valid_upto_def)

lemma inc_result_valid:
  assumes v: "valid_upto {} s" and bl: "buckets s = pre @ cb # post"
    and e: "e \<in> set (bucket_elements s cb)"
  shows "valid_upto {} (inc_result s pre cb post e cnt)"
proof -
  define target where "target = inc_target s cb cnt"
  define skipped where "skipped = takeWhile (\<lambda>b. bucket_count s b < target) post"
  define rest where "rest = dropWhile (\<lambda>b. bucket_count s b < target) post"
  have cb: "cb \<in> set (buckets s)" by (simp add: bl)
  from v have dist: "distinct (pre @ cb # post)" by (simp add: valid_upto_def bl)
  have rest_sub: "set rest \<subseteq> set post" unfolding rest_def by (auto dest: set_dropWhileD)
  show ?thesis
  proof (cases "reuse s target post")
    case True
    then obtain nb rest' where r: "rest = nb # rest'"
      unfolding reuse_def rest_def [symmetric] by (cases rest) auto
    from r rest_sub dist have neq: "nb \<noteq> cb" by auto
    from r rest_sub have nb: "nb \<in> set (buckets s)" by (auto simp: bl)
    from valid_upto_move [OF valid_upto_mono [OF v] cb nb neq e] True r
    show ?thesis by (simp add: inc_result_def target_def [symmetric] rest_def [symmetric])
  next
    case False
    let ?n = "next_addr s"
    let ?s1 = "with_new_bucket s target ((pre @ cb # skipped) @ ?n # rest)"
    from v cb have fresh: "?n \<noteq> cb" and ty: "type s \<noteq> None" by (auto simp: valid_upto_def)
    have "buckets s = (pre @ cb # skipped) @ rest" by (simp add: bl skipped_def rest_def)
    from valid_upto_new [OF v this ty] have v1: "valid_upto {?n} ?s1" .
    have "valid_upto {} (move_element ?s1 e cb ?n)"
      by (rule valid_upto_move [OF v1]) (use fresh e in \<open>simp_all add: bucket_elements_new\<close>)
    with False show ?thesis
      by (simp add: inc_result_def target_def [symmetric] rest_def [symmetric] skipped_def [symmetric])
  qed
qed

lemma IncrementCounter_inc_result:
  assumes v: "valid_upto {} s" and bl: "buckets s = pre @ cb # post"
    and e: "e \<in> set (bucket_elements s cb)"
  shows "IncrementCounter s e cnt = Inr (inc_result s pre cb post e cnt)"
  unfolding inc_result_def by (rule IncrementCounter_valid_eq [OF assms])

lemma removeAll_single:
  "distinct xs \<Longrightarrow> e \<in> set xs \<Longrightarrow> removeAll e xs = [] \<longleftrightarrow> xs = [e]"
  by (cases xs) (auto simp: removeAll_id dest: removeAll_neq_Nil)

lemma inc_dest_neq:
  assumes v: "valid_upto {} s" and bl: "buckets s = pre @ cb # post"
  shows "inc_dest s cb post cnt \<noteq> cb" "inc_dest s cb post cnt \<notin> set pre"
proof -
  from v have dist: "distinct (pre @ cb # post)" by (simp add: valid_upto_def bl)
  from v have fresh: "next_addr s \<notin> set (buckets s)" by (auto simp: valid_upto_def)
  have "reuse s (inc_target s cb cnt) post \<Longrightarrow> inc_dest s cb post cnt \<in> set post"
    unfolding reuse_def inc_dest_def by (metis hd_in_set set_dropWhileD)
  moreover have "\<not> reuse s (inc_target s cb cnt) post \<Longrightarrow> inc_dest s cb post cnt = next_addr s"
    by (simp add: inc_dest_def)
  ultimately have "inc_dest s cb post cnt \<in> set post \<or> inc_dest s cb post cnt = next_addr s"
    by blast
  with dist fresh show "inc_dest s cb post cnt \<noteq> cb" "inc_dest s cb post cnt \<notin> set pre"
    by (auto simp: bl)
qed

lemma inc_result_buckets:
  assumes v: "valid_upto {} s" and bl: "buckets s = pre @ cb # post"
    and e: "e \<in> set (bucket_elements s cb)"
  shows "buckets (inc_result s pre cb post e cnt) =
     pre @ (if bucket_elements s cb = [e] then [] else [cb])
       @ takeWhile (\<lambda>b. bucket_count s b < inc_target s cb cnt) post
       @ (if reuse s (inc_target s cb cnt) post then [] else [next_addr s])
       @ dropWhile (\<lambda>b. bucket_count s b < inc_target s cb cnt) post"
proof -
  from v have dist: "distinct (pre @ cb # post)" by (simp add: valid_upto_def bl)
  from v have fresh: "next_addr s \<notin> set (buckets s)" by (auto simp: valid_upto_def)
  from v bl have d: "distinct (bucket_elements s cb)" by (simp add: valid_upto_def)
  note rs = removeAll_single [OF d e]
  have ra: "removeAll cb (pre @ cb # xs) = pre @ xs" if "cb \<notin> set xs" for xs
    using dist that by (simp add: removeAll_id)
  have sub: "set (takeWhile P post) \<subseteq> set post" "set (dropWhile P post) \<subseteq> set post" for P
    by (auto dest: set_takeWhileD set_dropWhileD)
  have "removeAll cb (pre @ cb # post) = pre @ post" using dist by (simp add: ra)
  moreover have "removeAll cb (pre @ cb # takeWhile P post @ next_addr s # dropWhile P post)
      = pre @ takeWhile P post @ next_addr s # dropWhile P post" for P
    using dist fresh sub [of P] by (intro ra) (auto simp: bl)
  ultimately show ?thesis
    using fresh by (auto simp: inc_result_def bl rs bucket_elements_new)
qed

lemma inc_result_fields:
  "elementDict (inc_result s pre cb post e cnt) = elementDict s"
  "size_cap (inc_result s pre cb post e cnt) = size_cap s"
  "numElements (inc_result s pre cb post e cnt) = numElements s"
  "pruned (inc_result s pre cb post e cnt) = pruned s"
  "type (inc_result s pre cb post e cnt) = type s"
  "element_store (inc_result s pre cb post e cnt) =
     (element_store s)(e := map_option (\<lambda>el. el\<lparr> parent := Some (inc_dest s cb post cnt) \<rparr>) (element_store s e))"
  by (simp_all add: inc_result_def inc_dest_def)

lemma inc_result_bucket_store:
  assumes v: "valid_upto {} s" and bl: "buckets s = pre @ cb # post"
    and e: "e \<in> set (bucket_elements s cb)"
  shows "bucket_store (inc_result s pre cb post e cnt) b =
     (if b = cb then (if bucket_elements s cb = [e] then None
                      else map_option (\<lambda>bk. bk\<lparr> elements := removeAll e (elements bk) \<rparr>) (bucket_store s cb))
      else if b = inc_dest s cb post cnt
           then Some \<lparr> elements = (if reuse s (inc_target s cb cnt) post then bucket_elements s b else []) @ [e],
                       count = inc_target s cb cnt \<rparr>
      else bucket_store s b)"
proof -
  from v bl have d: "distinct (bucket_elements s cb)" by (simp add: valid_upto_def)
  have "cb \<in> set (buckets s)" by (simp add: bl)
  from valid_upto_bucket [OF v this] obtain cbk where cbk: "bucket_store s cb = Some cbk" by blast
  then have be: "bucket_elements s cb = elements cbk" by (simp add: bucket_elements_def)
  note rs = removeAll_single [OF d e, unfolded be]
  note neq = inc_dest_neq(1) [OF v bl, of cnt]
  show ?thesis
  proof (cases "reuse s (inc_target s cb cnt) post")
    case True
    then have "inc_dest s cb post cnt \<in> set post"
      unfolding reuse_def inc_dest_def by (metis hd_in_set set_dropWhileD)
    then have "inc_dest s cb post cnt \<in> set (buckets s)" by (simp add: bl)
    from valid_upto_bucket [OF v this]
    obtain nbk where nbk: "bucket_store s (inc_dest s cb post cnt) = Some nbk" by blast
    from True have "bucket_count s (inc_dest s cb post cnt) = inc_target s cb cnt"
      by (simp add: reuse_def inc_dest_def)
    with nbk have "count nbk = inc_target s cb cnt" by (simp add: bucket_count_def)
    with True nbk neq show ?thesis
      by (auto simp: inc_result_def inc_dest_def move_element_def rs bucket_elements_def cbk)
  next
    case False
    with neq show ?thesis
      by (auto simp: inc_result_def inc_dest_def move_element_def rs bucket_elements_def cbk)
  qed
qed

lemma dropWhile_ge:
  "sorted_wrt (\<lambda>a b. f a < f b) xs \<Longrightarrow> x \<in> set (dropWhile (\<lambda>b. f b < t) xs) \<Longrightarrow> (t::'a::linorder) \<le> f x"
  by (induction xs) (auto split: if_splits)

lemma dropWhile_gt:
  assumes "sorted_wrt (\<lambda>a b. f a < f b) xs" "x \<in> set (dropWhile (\<lambda>b. f b < t) xs)"
    "f (hd (dropWhile (\<lambda>b. f b < t) xs)) \<noteq> t"
  shows "(t::'a::linorder) < f x"
  using assms by (induction xs) (auto split: if_splits)

lemma sorted_insert_target:
  fixes f g :: "'b \<Rightarrow> 'a::linorder"
  assumes srt: "sorted_wrt (\<lambda>a b. f a < f b) (pre @ cb # post)"
    and lt: "f cb < t"
    and agree: "\<And>b. b \<in> set pre \<union> set X \<union> set post \<Longrightarrow> g b = f b"
    and gn: "N = [n] \<Longrightarrow> g n = t"
    and X: "X = [] \<or> X = [cb]"
    and N: "N = (if dropWhile (\<lambda>b. f b < t) post \<noteq> [] \<and> f (hd (dropWhile (\<lambda>b. f b < t) post)) = t then [] else [n])"
  shows "sorted_wrt (\<lambda>a b. g a < g b) (pre @ X @ takeWhile (\<lambda>b. f b < t) post @ N @ dropWhile (\<lambda>b. f b < t) post)"
proof -
  let ?S = "takeWhile (\<lambda>b. f b < t) post" and ?R = "dropWhile (\<lambda>b. f b < t) post"
  from srt have sp: "sorted_wrt (\<lambda>a b. f a < f b) post"
    and pc: "\<forall>a \<in> set pre. f a < f cb" and pp: "\<forall>a \<in> set pre. \<forall>b \<in> set post. f a < f b"
    and cp: "\<forall>b \<in> set post. f cb < f b" and spre: "sorted_wrt (\<lambda>a b. f a < f b) pre"
    by (auto simp: sorted_wrt_append)
  have SR: "post = ?S @ ?R" by simp
  have S_lt: "\<forall>a \<in> set ?S. f a < t" by (auto dest: set_takeWhileD)
  have R_ge: "\<forall>b \<in> set ?R. t \<le> f b" using dropWhile_ge [OF sp] by blast
  have subS: "set ?S \<subseteq> set post" and subR: "set ?R \<subseteq> set post"
    by (auto dest: set_takeWhileD set_dropWhileD)
  have old: "sorted_wrt (\<lambda>a b. f a < f b) (pre @ X @ ?S @ ?R)"
    using X srt by (auto simp: sorted_wrt_append)
  have cong: "sorted_wrt (\<lambda>a b. g a < g b) xs"
    if "set xs \<subseteq> set pre \<union> set X \<union> set post" "sorted_wrt (\<lambda>a b. f a < f b) xs" for xs
  proof (rule sorted_wrt_mono_rel [OF _ that(2)])
    fix x y assume xy: "x \<in> set xs" "y \<in> set xs" "f x < f y"
    from xy(1,2) that(1) have "x \<in> set pre \<union> set X \<union> set post" "y \<in> set pre \<union> set X \<union> set post"
      by blast+
    then have "g x = f x" "g y = f y" by (simp_all only: agree)
    with xy(3) show "g x < g y" by simp
  qed
  show ?thesis
  proof (cases "N = []")
    case True
    have "set (pre @ X @ ?S @ ?R) \<subseteq> set pre \<union> set X \<union> set post"
      using subS subR by auto
    from cong [OF this old] True show ?thesis by simp
  next
    case False
    with N have Nn: "N = [n]" and nr: "?R \<noteq> [] \<Longrightarrow> f (hd ?R) \<noteq> t"
      by (auto split: if_splits)
    have R_gt: "\<forall>b \<in> set ?R. t < f b"
    proof
      fix b assume b: "b \<in> set ?R"
      then have "?R \<noteq> []" by (metis empty_iff list.set(1))
      from dropWhile_gt [OF sp b nr [OF this]] show "t < f b" .
    qed
    from old have "sorted_wrt (\<lambda>a b. f a < f b) ((pre @ X @ ?S) @ ?R)" by simp
    then have 1: "sorted_wrt (\<lambda>a b. f a < f b) (pre @ X @ ?S)" and 2: "sorted_wrt (\<lambda>a b. f a < f b) ?R"
      unfolding sorted_wrt_append by blast+
    have 4: "\<forall>a \<in> set (pre @ X @ ?S). f a < t"
      using X pc lt S_lt by auto
    have in1: "set (pre @ X @ ?S) \<subseteq> set pre \<union> set X \<union> set post" using subS by auto
    have in2: "set ?R \<subseteq> set pre \<union> set X \<union> set post" using subR by auto
    have g1: "\<forall>a \<in> set (pre @ X @ ?S). g a = f a" using in1 agree by blast
    have g2: "\<forall>a \<in> set ?R. g a = f a" using in2 agree by blast
    have a: "sorted_wrt (\<lambda>a b. g a < g b) (pre @ X @ ?S)" by (rule cong [OF in1 1])
    have b: "sorted_wrt (\<lambda>a b. g a < g b) ?R" by (rule cong [OF in2 2])
    have c: "\<forall>b \<in> set ?R. g n < g b" using R_gt g2 gn [OF Nn] by simp
    have d: "\<forall>a \<in> set (pre @ X @ ?S). g a < g n" using 4 g1 gn [OF Nn] by simp
    have e: "\<forall>a \<in> set (pre @ X @ ?S). \<forall>b \<in> set ?R. g a < g b"
    proof (intro ballI)
      fix a b assume "a \<in> set (pre @ X @ ?S)" "b \<in> set ?R"
      with c d have "g a < g n" "g n < g b" by blast+
      then show "g a < g b" by (rule less_trans)
    qed
    from b c have "sorted_wrt (\<lambda>a b. g a < g b) (n # ?R)" by simp
    with a d e have "sorted_wrt (\<lambda>a b. g a < g b) ((pre @ X @ ?S) @ n # ?R)"
      unfolding sorted_wrt_append [of _ "pre @ X @ ?S" "n # ?R"] by simp
    with Nn show ?thesis by simp
  qed
qed

lemma ordered_alt: "ordered s \<longleftrightarrow> sorted_wrt (\<lambda>a b. bucket_count s a < bucket_count s b) (buckets s)"
  by (simp add: ordered_def chain_counts_def sorted_wrt_map)

lemma inc_result_bucket_count:
  assumes v: "valid_upto {} s" and bl: "buckets s = pre @ cb # post"
    and e: "e \<in> set (bucket_elements s cb)"
  shows "bucket_count (inc_result s pre cb post e cnt) b =
     (if b = cb then (if bucket_elements s cb = [e] then 0 else bucket_count s cb)
      else if b = inc_dest s cb post cnt then inc_target s cb cnt
      else bucket_count s b)"
  unfolding bucket_count_def [of "inc_result s pre cb post e cnt"] inc_result_bucket_store [OF assms]
  by (auto simp: bucket_count_def split: option.splits)

lemma inc_result_ordered:
  assumes v: "valid_upto {} s" and bl: "buckets s = pre @ cb # post"
    and e: "e \<in> set (bucket_elements s cb)"
    and ord: "ordered s" and lt: "bucket_count s cb < inc_target s cb cnt"
  shows "ordered (inc_result s pre cb post e cnt)"
proof -
  let ?s' = "inc_result s pre cb post e cnt"
  let ?t = "inc_target s cb cnt"
  let ?X = "if bucket_elements s cb = [e] then [] else [cb]"
  let ?N = "if reuse s ?t post then [] else [next_addr s]"
  from v have fresh: "next_addr s \<notin> set (buckets s)" by (auto simp: valid_upto_def)
  have srt: "sorted_wrt (\<lambda>a b. bucket_count s a < bucket_count s b) (pre @ cb # post)"
    using ord by (simp add: ordered_alt bl)
  have agree: "bucket_count ?s' b = bucket_count s b" if "b \<in> set pre \<union> set ?X \<union> set post" for b
  proof (cases "b = inc_dest s cb post cnt")
    case True
    with that fresh have "reuse s ?t post" by (auto simp: inc_dest_def bl split: if_splits)
    then have "bucket_count s (inc_dest s cb post cnt) = ?t" by (simp add: reuse_def inc_dest_def)
    with True inc_dest_neq(1) [OF v bl, of cnt] show ?thesis
      by (simp add: inc_result_bucket_count [OF v bl e])
  next
    case False
    from v have "cb \<notin> set pre" "cb \<notin> set post" by (auto simp: valid_upto_def bl)
    with False that show ?thesis
      by (auto simp: inc_result_bucket_count [OF v bl e] split: if_splits)
  qed
  have gn: "bucket_count ?s' (next_addr s) = ?t" if "\<not> reuse s ?t post"
    using that fresh by (auto simp: inc_result_bucket_count [OF v bl e] inc_dest_def bl)
  have "sorted_wrt (\<lambda>a b. bucket_count ?s' a < bucket_count ?s' b)
          (pre @ ?X @ takeWhile (\<lambda>b. bucket_count s b < ?t) post @ ?N @ dropWhile (\<lambda>b. bucket_count s b < ?t) post)"
  proof (cases "reuse s ?t post")
    case True
    show ?thesis
      by (rule sorted_insert_target [OF srt lt agree, where n = cb])
         (use True in \<open>auto simp: reuse_def\<close>)
  next
    case False
    show ?thesis
      by (rule sorted_insert_target [OF srt lt agree, where n = "next_addr s"])
         (use False gn in \<open>auto simp: reuse_def\<close>)
  qed
  then show ?thesis
    by (simp add: ordered_alt inc_result_buckets [OF v bl e])
qed

lemma reuse_iff_exists:
  assumes "sorted_wrt (\<lambda>a b. bucket_count s a < bucket_count s b) post"
  shows "reuse s t post \<longleftrightarrow> (\<exists>b \<in> set post. bucket_count s b = t)"
proof
  assume "reuse s t post"
  then show "\<exists>b \<in> set post. bucket_count s b = t"
    unfolding reuse_def by (metis hd_in_set set_dropWhileD)
next
  assume "\<exists>b \<in> set post. bucket_count s b = t"
  then obtain b where b: "b \<in> set post" "bucket_count s b = t" by blast
  from assms b show "reuse s t post"
    unfolding reuse_def by (induction post) auto
qed


subsection \<open>IncrementCounter\<close>

text \<open>
  Claim C6. \<^verbatim>\<open>IncrementCounter(e, delta)\<close> on a well-formed sketch with an ordered chain,
  for an element \<open>e\<close> of the bucket \<open>cb\<close> at position \<open>pre @ cb # post\<close> of the chain,
  returns, and moves \<open>e\<close> to the bucket \<open>dest\<close> of count \<open>target = count of cb + delta\<close>
  (64-bit addition): if a bucket of that count stands later in the chain, it is the
  first bucket behind \<open>cb\<close> whose count is at least \<open>target\<close> and is reused; otherwise
  \<open>dest\<close> is a new bucket, inserted immediately before the first later bucket whose count
  is at least \<open>target\<close> (\<open>rest\<close>), at the tail when there is none. \<open>e\<close> leaves the
  element list of \<open>cb\<close> and becomes the last element of \<open>dest\<close>, its parent is
  \<open>dest\<close>, and when \<open>cb\<close> has become empty it is erased from the chain and
  destroyed. Nothing else changes, and the sketch stays well-formed.
\<close>

theorem IncrementCounter_moves:
  assumes v: "valid s" and ord: "ordered s" and bl: "buckets s = pre @ cb # post"
    and e: "e \<in> set (bucket_elements s cb)"
  shows "\<exists>s'. IncrementCounter s e delta = Inr s' \<and>
     (let target = bucket_count s cb + ucast delta;
          skipped = takeWhile (\<lambda>b. bucket_count s b < target) post;
          rest = dropWhile (\<lambda>b. bucket_count s b < target) post;
          found = (\<exists>b \<in> set post. bucket_count s b = target);
          dest = (if found then hd rest else next_addr s);
          emptied = (bucket_elements s cb = [e])
      in (found \<longrightarrow> dest \<in> set post \<and> bucket_count s dest = target) \<and>
         (\<not> found \<longrightarrow> dest \<notin> set (buckets s)) \<and>
         (\<forall>b \<in> set skipped. bucket_count s b < target) \<and>
         (\<forall>b \<in> set rest. target \<le> bucket_count s b) \<and>
         buckets s' = pre @ (if emptied then [] else [cb]) @ skipped @ (if found then [] else [dest]) @ rest \<and>
         bucket_store s' dest =
           Some \<lparr> elements = (if found then bucket_elements s dest else []) @ [e], count = target \<rparr> \<and>
         bucket_store s' cb =
           (if emptied then None
            else Some \<lparr> elements = removeAll e (bucket_elements s cb), count = bucket_count s cb \<rparr>) \<and>
         (\<forall>b. b \<noteq> cb \<and> b \<noteq> dest \<longrightarrow> bucket_store s' b = bucket_store s b) \<and>
         element_store s' =
           (element_store s)(e := map_option (\<lambda>el. el\<lparr> parent := Some dest \<rparr>) (element_store s e)) \<and>
         elementDict s' = elementDict s \<and> numElements s' = numElements s \<and>
         valid s')"
proof -
  from v have v': "valid_upto {} s" by (simp add: valid_def)
  let ?s' = "inc_result s pre cb post e delta"
  let ?t = "inc_target s cb delta"
  have srt: "sorted_wrt (\<lambda>a b. bucket_count s a < bucket_count s b) post"
    using ord by (simp add: ordered_alt bl sorted_wrt_append)
  note found = reuse_iff_exists [OF srt, of ?t, symmetric]
  have dest: "(if reuse s ?t post then hd (dropWhile (\<lambda>b. bucket_count s b < ?t) post) else next_addr s)
      = inc_dest s cb post delta"
    by (simp add: inc_dest_def)
  have cbm: "cb \<in> set (buckets s)" by (simp add: bl)
  from valid_upto_bucket [OF v' this] obtain cbk where cbk: "bucket_store s cb = Some cbk" by blast
  have 1: "inc_dest s cb post delta \<in> set post \<and> bucket_count s (inc_dest s cb post delta) = ?t"
    if r: "reuse s ?t post"
  proof -
    from r have "hd (dropWhile (\<lambda>b. bucket_count s b < ?t) post) \<in> set post"
      unfolding reuse_def by (metis hd_in_set set_dropWhileD)
    with r show ?thesis by (simp add: inc_dest_def reuse_def)
  qed
  have 2: "\<not> reuse s ?t post \<Longrightarrow> inc_dest s cb post delta \<notin> set (buckets s)"
    using v' by (auto simp: inc_dest_def valid_upto_def)
  have 3: "\<forall>b \<in> set (takeWhile (\<lambda>b. bucket_count s b < ?t) post). bucket_count s b < ?t"
    by (auto dest: set_takeWhileD)
  have 4: "\<forall>b \<in> set (dropWhile (\<lambda>b. bucket_count s b < ?t) post). ?t \<le> bucket_count s b"
    using dropWhile_ge [OF srt] by blast
  have 5: "bucket_store ?s' (inc_dest s cb post delta) =
      Some \<lparr> elements = (if reuse s ?t post then bucket_elements s (inc_dest s cb post delta) else []) @ [e], count = ?t \<rparr>"
    using inc_dest_neq(1) [OF v' bl, of delta] by (simp add: inc_result_bucket_store [OF v' bl e])
  have 6: "bucket_store ?s' cb =
      (if bucket_elements s cb = [e] then None
       else Some \<lparr> elements = removeAll e (bucket_elements s cb), count = bucket_count s cb \<rparr>)"
    by (simp add: inc_result_bucket_store [OF v' bl e] cbk bucket_elements_def bucket_count_def)
  have 7: "\<forall>b. b \<noteq> cb \<and> b \<noteq> inc_dest s cb post delta \<longrightarrow> bucket_store ?s' b = bucket_store s b"
    by (simp add: inc_result_bucket_store [OF v' bl e])
  have 9: "\<not> reuse s ?t post \<Longrightarrow> next_addr s = inc_dest s cb post delta"
    by (simp add: inc_dest_def)
  have 8: "valid ?s'" unfolding valid_def by (rule inc_result_valid [OF v' bl e])
  show ?thesis
    apply (rule exI [of _ ?s'])
    apply (simp only: Let_def IncrementCounter_inc_result [OF v' bl e] inc_target_def [symmetric] found dest)
    using 1 2 3 4 5 6 7 8 9
    apply (simp add: inc_result_buckets [OF v' bl e] inc_result_fields)
    done
qed

theorem IncrementCounter_moves_witness:
  "valid sketch_AAB \<and> ordered sketch_AAB \<and>
   buckets sketch_AAB = [] @ hd (buckets sketch_AAB) # tl (buckets sketch_AAB) \<and>
   hd (bucket_elements sketch_AAB (hd (buckets sketch_AAB)))
     \<in> set (bucket_elements sketch_AAB (hd (buckets sketch_AAB))) \<and>
   \<not> isl (IncrementCounter sketch_AAB (hd (bucket_elements sketch_AAB (hd (buckets sketch_AAB)))) 1) \<and>
   chain_view sketch_AAB = [(1, [(StringVal ''B'', 0)]), (2, [(StringVal ''A'', 0)])] \<and>
   chain_view (projr (IncrementCounter sketch_AAB
       (hd (bucket_elements sketch_AAB (hd (buckets sketch_AAB)))) 1)) =
     [(2, [(StringVal ''A'', 0), (StringVal ''B'', 0)])]"
proof -
  have v: "valid sketch_AAB" by code_simp
  have o: "ordered sketch_AAB" by code_simp
  have b: "buckets sketch_AAB = [] @ hd (buckets sketch_AAB) # tl (buckets sketch_AAB)"
    by code_simp
  have e: "hd (bucket_elements sketch_AAB (hd (buckets sketch_AAB)))
     \<in> set (bucket_elements sketch_AAB (hd (buckets sketch_AAB)))"
    by code_simp
  from IncrementCounter_moves [OF v o b e, of 1]
  obtain s' where "IncrementCounter sketch_AAB
      (hd (bucket_elements sketch_AAB (hd (buckets sketch_AAB)))) 1 = Inr s'"
    by blast
  then have r: "\<not> isl (IncrementCounter sketch_AAB
      (hd (bucket_elements sketch_AAB (hd (buckets sketch_AAB)))) 1)"
    by simp
  have c0: "chain_view sketch_AAB = [(1, [(StringVal ''B'', 0)]), (2, [(StringVal ''A'', 0)])]"
    by code_simp
  have c1: "chain_view (projr (IncrementCounter sketch_AAB
       (hd (bucket_elements sketch_AAB (hd (buckets sketch_AAB)))) 1)) =
     [(2, [(StringVal ''A'', 0), (StringVal ''B'', 0)])]"
    by code_simp
  from v o b e r c0 c1 show ?thesis by blast
qed

lemma alloc_element_simps [simp]:
  "buckets (alloc_element s v eps) = buckets s"
  "elementDict (alloc_element s v eps) = elementDict s"
  "size_cap (alloc_element s v eps) = size_cap s"
  "numElements (alloc_element s v eps) = numElements s"
  "pruned (alloc_element s v eps) = pruned s"
  "type (alloc_element s v eps) = type s"
  "next_addr (alloc_element s v eps) = Suc (next_addr s)"
  "bucket_store (alloc_element s v eps) = bucket_store s"
  "element_store (alloc_element s v eps) = (element_store s)(next_addr s \<mapsto> \<lparr> epsilon = eps, val = v, parent = None \<rparr>)"
  "bucket_elements (alloc_element s v eps) = bucket_elements s"
  "bucket_count (alloc_element s v eps) = bucket_count s"
  by (simp_all add: alloc_element_def bucket_elements_def bucket_count_def fun_eq_iff)

lemma attach_element_simps [simp]:
  "buckets (attach_element s e b key) = buckets s"
  "elementDict (attach_element s e b key) = AList.update key e (elementDict s)"
  "size_cap (attach_element s e b key) = size_cap s"
  "numElements (attach_element s e b key) = numElements s"
  "pruned (attach_element s e b key) = pruned s"
  "type (attach_element s e b key) = type s"
  "next_addr (attach_element s e b key) = next_addr s"
  "element_store (attach_element s e b key) = (element_store s)
           (e := map_option (\<lambda>el. el\<lparr> parent := Some b \<rparr>) (element_store s e))"
  "bucket_count (attach_element s e b key) = bucket_count s"
  by (auto simp: attach_element_def bucket_count_def fun_eq_iff split: option.splits)

lemma bucket_store_detach_None [simp]:
  "(bucket_store (detach_victim s b d key) b' = None) = (bucket_store s b' = None)"
  by (simp add: detach_victim_def)

lemma bucket_elements_attach:
  "bucket_elements (attach_element s e b key) b' =
     (if b' = b \<and> bucket_store s b \<noteq> None then bucket_elements s b @ [e] else bucket_elements s b')"
  by (auto simp: attach_element_def bucket_elements_def split: option.splits)

lemma detach_victim_simps [simp]:
  "buckets (detach_victim s b d key) = buckets s"
  "elementDict (detach_victim s b d key) = AList.delete key (elementDict s)"
  "size_cap (detach_victim s b d key) = size_cap s"
  "numElements (detach_victim s b d key) = numElements s"
  "pruned (detach_victim s b d key) = pruned s"
  "type (detach_victim s b d key) = type s"
  "next_addr (detach_victim s b d key) = next_addr s"
  "element_store (detach_victim s b d key) = (element_store s)(d := None)"
  "bucket_count (detach_victim s b d key) = bucket_count s"
  by (auto simp: detach_victim_def bucket_count_def fun_eq_iff split: option.splits)

lemma bucket_elements_detach:
  "bucket_elements (detach_victim s b d key) b' =
     (if b' = b then tl (bucket_elements s b) else bucket_elements s b')"
  by (auto simp: detach_victim_def bucket_elements_def split: option.splits)

lemma valid_upto_alloc:
  assumes v: "valid_upto X s"
  shows "valid_upto X (alloc_element s v eps)"
proof -
  have ok: "element_ok s b x \<Longrightarrow> element_ok (alloc_element s v eps) b x" for b x
    by (auto simp: element_ok_def split: option.splits)
  have ent: "entry_ok s ke \<Longrightarrow> entry_ok (alloc_element s v eps) ke" if "\<forall>b \<in> set (buckets s). \<forall>x \<in> set (bucket_elements s b). element_ok s b x" for ke
  proof -
    assume old: "entry_ok s ke"
    then obtain b where "b \<in> set (buckets s)" "snd ke \<in> set (bucket_elements s b)"
      by (auto simp: entry_ok_def)
    with that have "element_ok s b (snd ke)" by blast
    then have "snd ke \<noteq> next_addr s" by (auto simp: element_ok_def)
    with old show ?thesis by (auto simp: entry_ok_def)
  qed
  from v show ?thesis
    unfolding valid_upto_def
    by (auto intro: ok ent less_SucI)
qed

lemma set_update_subset: "set (AList.update k v al) \<subseteq> insert (k, v) (set al)"
  by (induction al) auto

lemma set_delete_subset: "set (AList.delete k al) \<subseteq> set al"
  by (induction al) auto

lemma valid_upto_element:
  "valid_upto X s \<Longrightarrow> b \<in> set (buckets s) \<Longrightarrow> x \<in> set (bucket_elements s b) \<Longrightarrow> element_ok s b x"
  by (simp add: valid_upto_def)

lemma element_ok_key:
  assumes "element_ok s b x" "element_ok s b' x'" "element_store s x = Some el" "element_store s x' = Some el'"
    "val el = val el'"
  shows "x = x'"
  using assms by (auto simp: element_ok_def)

lemma valid_upto_attach:
  assumes v: "valid_upto X s" and b: "b \<in> set (buckets s)"
    and el: "element_store s e = Some el" and key: "key = HashKey (val el)"
    and lt: "e < next_addr s" and absent: "map_of (elementDict s) key = None"
  shows "valid_upto (X - {b}) (attach_element s e b key)"
proof -
  let ?s' = "attach_element s e b key"
  from valid_upto_bucket [OF v b] have bs: "bucket_store s b \<noteq> None" by auto
  have be: "bucket_elements ?s' b' = (if b' = b then bucket_elements s b @ [e] else bucket_elements s b')" for b'
    using bs by (simp add: bucket_elements_attach)
  have bst: "bucket_store ?s' b' \<noteq> None" if "bucket_store s b' \<noteq> None" for b'
    using that by (auto simp: attach_element_def)
  have notin: "e \<notin> set (bucket_elements s b')" if "b' \<in> set (buckets s)" for b'
  proof
    assume "e \<in> set (bucket_elements s b')"
    from valid_upto_element [OF v that this] el key absent show False
      by (simp add: element_ok_def)
  qed
  have keep: "element_ok ?s' b' x" if "element_ok s b' x" "x \<noteq> e" for b' x
  proof -
    from that obtain xl where xl: "element_store s x = Some xl" "parent xl = Some b'"
      "map_of (elementDict s) (HashKey (val xl)) = Some x" "x < next_addr s"
      by (auto simp: element_ok_def split: option.splits)
    with absent have "HashKey (val xl) \<noteq> key" by auto
    with xl that(2) show ?thesis
      by (simp add: element_ok_def update_conv')
  qed
  have c1: "distinct (buckets ?s')" using v by (simp add: valid_upto_def)
  have c2: "\<forall>b' \<in> set (buckets ?s'). b' < next_addr ?s' \<and> bucket_store ?s' b' \<noteq> None \<and> (b' \<notin> X - {b} \<longrightarrow> bucket_elements ?s' b' \<noteq> [])"
  proof
    fix b' assume "b' \<in> set (buckets ?s')"
    then have m: "b' \<in> set (buckets s)" by simp
    with v have "b' < next_addr s" "bucket_store s b' \<noteq> None" "b' \<notin> X \<Longrightarrow> bucket_elements s b' \<noteq> []"
      by (auto simp: valid_upto_def)
    then show "b' < next_addr ?s' \<and> bucket_store ?s' b' \<noteq> None \<and> (b' \<notin> X - {b} \<longrightarrow> bucket_elements ?s' b' \<noteq> [])"
      using bst [of b'] by (auto simp: be)
  qed
  have c3: "\<forall>b' \<in> set (buckets ?s'). distinct (bucket_elements ?s' b')"
  proof
    fix b' assume "b' \<in> set (buckets ?s')"
    then have m: "b' \<in> set (buckets s)" by simp
    with v have "distinct (bucket_elements s b')" by (simp add: valid_upto_def)
    with notin [OF b] show "distinct (bucket_elements ?s' b')" by (auto simp: be)
  qed
  have c4: "\<forall>b' \<in> set (buckets ?s'). \<forall>x \<in> set (bucket_elements ?s' b'). element_ok ?s' b' x"
  proof (intro ballI)
    fix b' x assume "b' \<in> set (buckets ?s')" and x: "x \<in> set (bucket_elements ?s' b')"
    then have m: "b' \<in> set (buckets s)" by simp
    show "element_ok ?s' b' x"
    proof (cases "x = e")
      case True
      with x notin [OF m] have "b' = b" by (auto simp: be split: if_splits)
      with True el key lt show ?thesis by (simp add: element_ok_def update_conv')
    next
      case False
      with x have "x \<in> set (bucket_elements s b')" by (auto simp: be split: if_splits)
      from keep [OF valid_upto_element [OF v m this] False] show ?thesis .
    qed
  qed
  have c5: "\<forall>ke \<in> set (elementDict ?s'). entry_ok ?s' ke"
  proof
    fix ke assume "ke \<in> set (elementDict ?s')"
    then have "ke \<in> set (AList.update key e (elementDict s))" by simp
    moreover have "set (AList.update key e (elementDict s)) \<subseteq> insert (key, e) (set (elementDict s))"
      by (rule set_update_subset)
    ultimately consider "ke = (key, e)" | "ke \<in> set (elementDict s)" by blast
    then show "entry_ok ?s' ke"
    proof cases
      case 1
      have "e \<in> set (bucket_elements ?s' b)" by (simp add: be)
      with b have ex: "\<exists>b' \<in> set (buckets ?s'). e \<in> set (bucket_elements ?s' b')" by auto
      show ?thesis unfolding entry_ok_def 1 snd_conv fst_conv
      proof (intro conjI)
        show "\<exists>b' \<in> set (buckets ?s'). e \<in> set (bucket_elements ?s' b')" by (rule ex)
        show "case element_store ?s' e of None \<Rightarrow> False | Some el \<Rightarrow> HashKey (val el) = key"
          using el key by simp
      qed
    next
      case 2
      with v have old: "entry_ok s ke" by (simp add: valid_upto_def)
      then obtain b' where b': "b' \<in> set (buckets s)" "snd ke \<in> set (bucket_elements s b')"
        by (auto simp: entry_ok_def)
      then have "b' \<in> set (buckets ?s')" "snd ke \<in> set (bucket_elements ?s' b')"
        by (auto simp: be)
      moreover from b' notin have "snd ke \<noteq> e" by auto
      ultimately show ?thesis using old
        by (auto simp: entry_ok_def split: option.splits)
    qed
  qed
  have c6: "buckets ?s' \<noteq> [] \<longrightarrow> type ?s' \<noteq> None"
    using v by (simp add: valid_upto_def)
  from c1 c2 c3 c4 c5 c6 show ?thesis unfolding valid_upto_def by blast
qed

lemma valid_upto_detach:
  assumes v: "valid_upto X s" and b: "b \<in> set (buckets s)"
    and ds: "bucket_elements s b = d # ds"
    and del: "element_store s d = Some dl" and key: "key = HashKey (val dl)"
  shows "valid_upto (insert b X) (detach_victim s b d key)"
proof -
  let ?s' = "detach_victim s b d key"
  have be: "bucket_elements ?s' b' = (if b' = b then ds else bucket_elements s b')" for b'
    by (simp add: bucket_elements_detach ds)
  have bst: "bucket_store ?s' b' \<noteq> None" if "bucket_store s b' \<noteq> None" for b'
    using that by (auto simp: detach_victim_def)
  have d_in: "d \<in> set (bucket_elements s b)" by (simp add: ds)
  note d_ok = valid_upto_element [OF v b d_in]
  from v b have dist: "distinct (bucket_elements s b)" by (simp add: valid_upto_def)
  have sub: "set (bucket_elements ?s' b') \<subseteq> set (bucket_elements s b')" for b'
    by (auto simp: be ds)
  have d_gone: "d \<notin> set (bucket_elements ?s' b')" if "b' \<in> set (buckets s)" for b'
  proof
    assume a: "d \<in> set (bucket_elements ?s' b')"
    with sub have "d \<in> set (bucket_elements s b')" by blast
    from valid_upto_element [OF v that this] d_ok have "b' = b" by (metis element_ok_unique)
    with a dist show False by (simp add: be ds)
  qed
  have keep: "element_ok ?s' b' x" if "element_ok s b' x" "x \<noteq> d" for b' x
  proof -
    from that obtain xl where xl: "element_store s x = Some xl" "parent xl = Some b'"
      "map_of (elementDict s) (HashKey (val xl)) = Some x" "x < next_addr s"
      by (auto simp: element_ok_def split: option.splits)
    from d_ok del have "map_of (elementDict s) key = Some d" by (simp add: element_ok_def key)
    with xl(3) that(2) have "HashKey (val xl) \<noteq> key" by auto
    with xl that(2) show ?thesis
      by (simp add: element_ok_def delete_conv')
  qed
  have c1: "distinct (buckets ?s')" using v by (simp add: valid_upto_def)
  have c2: "\<forall>b' \<in> set (buckets ?s'). b' < next_addr ?s' \<and> bucket_store ?s' b' \<noteq> None \<and> (b' \<notin> insert b X \<longrightarrow> bucket_elements ?s' b' \<noteq> [])"
  proof
    fix b' assume "b' \<in> set (buckets ?s')"
    then have m: "b' \<in> set (buckets s)" by simp
    with v have "b' < next_addr s" "bucket_store s b' \<noteq> None" "b' \<notin> X \<Longrightarrow> bucket_elements s b' \<noteq> []"
      by (auto simp: valid_upto_def)
    then show "b' < next_addr ?s' \<and> bucket_store ?s' b' \<noteq> None \<and> (b' \<notin> insert b X \<longrightarrow> bucket_elements ?s' b' \<noteq> [])"
      using bst [of b'] by (auto simp: be)
  qed
  have c3: "\<forall>b' \<in> set (buckets ?s'). distinct (bucket_elements ?s' b')"
  proof
    fix b' assume "b' \<in> set (buckets ?s')"
    then have m: "b' \<in> set (buckets s)" by simp
    with v have "distinct (bucket_elements s b')" by (simp add: valid_upto_def)
    with dist show "distinct (bucket_elements ?s' b')" by (auto simp: be ds)
  qed
  have c4: "\<forall>b' \<in> set (buckets ?s'). \<forall>x \<in> set (bucket_elements ?s' b'). element_ok ?s' b' x"
  proof (intro ballI)
    fix b' x assume "b' \<in> set (buckets ?s')" and x: "x \<in> set (bucket_elements ?s' b')"
    then have m: "b' \<in> set (buckets s)" by simp
    from x d_gone [OF m] have "x \<noteq> d" by auto
    moreover from x sub have "x \<in> set (bucket_elements s b')" by blast
    ultimately show "element_ok ?s' b' x"
      using keep valid_upto_element [OF v m] by blast
  qed
  have c5: "\<forall>ke \<in> set (elementDict ?s'). entry_ok ?s' ke"
  proof
    fix ke assume k: "ke \<in> set (elementDict ?s')"
    then have "ke \<in> set (AList.delete key (elementDict s))" by simp
    then have in_old: "ke \<in> set (elementDict s)" and kne: "fst ke \<noteq> key"
      using set_delete_subset [of key "elementDict s"] by (auto simp: AList.delete_eq)
    with v have old: "entry_ok s ke" by (simp add: valid_upto_def)
    then obtain b' where b': "b' \<in> set (buckets s)" "snd ke \<in> set (bucket_elements s b')"
      by (auto simp: entry_ok_def)
    have "snd ke \<noteq> d"
    proof
      assume "snd ke = d"
      with old del have "fst ke = key" by (simp add: entry_ok_def key)
      with kne show False by simp
    qed
    with b' have "snd ke \<in> set (bucket_elements ?s' b')"
      by (auto simp: be ds)
    with b'(1) have "\<exists>b' \<in> set (buckets ?s'). snd ke \<in> set (bucket_elements ?s' b')" by auto
    with old \<open>snd ke \<noteq> d\<close> show "entry_ok ?s' ke"
      by (simp add: entry_ok_def)
  qed
  have c6: "buckets ?s' \<noteq> [] \<longrightarrow> type ?s' \<noteq> None"
    using v by (simp add: valid_upto_def)
  from c1 c2 c3 c4 c5 c6 show ?thesis unfolding valid_upto_def by blast
qed

lemma set_eps_simps [simp]:
  "buckets (set_eps s e f) = buckets s"
  "elementDict (set_eps s e f) = elementDict s"
  "size_cap (set_eps s e f) = size_cap s"
  "numElements (set_eps s e f) = numElements s"
  "pruned (set_eps s e f) = pruned s"
  "type (set_eps s e f) = type s"
  "next_addr (set_eps s e f) = next_addr s"
  "bucket_store (set_eps s e f) = bucket_store s"
  "bucket_elements (set_eps s e f) = bucket_elements s"
  "bucket_count (set_eps s e f) = bucket_count s"
  "element_store (set_eps s e f) = (element_store s)
           (e := map_option (\<lambda>el. el\<lparr> epsilon := f (epsilon el) \<rparr>) (element_store s e))"
  by (simp_all add: set_eps_def bucket_elements_def bucket_count_def fun_eq_iff)

lemma element_ok_set_eps [simp]: "element_ok (set_eps s e f) b x = element_ok s b x"
  by (auto simp: element_ok_def split: option.splits)

lemma entry_ok_set_eps [simp]: "entry_ok (set_eps s e f) ke = entry_ok s ke"
  by (auto simp: entry_ok_def split: option.splits)

lemma valid_upto_set_eps [simp]: "valid_upto X (set_eps s e f) = valid_upto X s"
  by (simp add: valid_upto_def)

lemma set_epsilon_eq:
  "element_store s e \<noteq> None \<Longrightarrow> set_epsilon s e f = Inr (set_eps s e f)"
  by (auto simp: set_epsilon_def deref_element_def set_eps_def)

lemma bucket_elements_numElements [simp]:
  "bucket_elements (s\<lparr> numElements := n \<rparr>) = bucket_elements s"
  "bucket_count (s\<lparr> numElements := n \<rparr>) = bucket_count s"
  "bucket_elements (s\<lparr> pruned := p \<rparr>) = bucket_elements s"
  "bucket_count (s\<lparr> pruned := p \<rparr>) = bucket_count s"
  by (simp_all add: bucket_elements_def bucket_count_def fun_eq_iff)

lemma element_ok_numElements [simp]:
  "element_ok (s\<lparr> numElements := n \<rparr>) b x = element_ok s b x"
  "element_ok (s\<lparr> pruned := p \<rparr>) b x = element_ok s b x"
  by (auto simp: element_ok_def split: option.splits)

lemma entry_ok_numElements [simp]:
  "entry_ok (s\<lparr> numElements := n \<rparr>) ke = entry_ok s ke"
  "entry_ok (s\<lparr> pruned := p \<rparr>) ke = entry_ok s ke"
  by (auto simp: entry_ok_def split: option.splits)

lemma valid_upto_numElements [simp]:
  "valid_upto X (s\<lparr> numElements := n \<rparr>) = valid_upto X s"
  "valid_upto X (s\<lparr> pruned := p \<rparr>) = valid_upto X s"
  by (simp_all add: valid_upto_def)

lemma new_Element_eq: "new_Element s v = (next_addr s, alloc_element s v 0)"
  by (simp add: new_Element_def alloc_element_def)

lemma Encountered_replace_eq:
  assumes "buckets s = b # bs" "bucket_store s b = Some bk" "elements bk = d # ds"
    "element_store s d = Some dl" "type s \<noteq> None"
    "map_of (elementDict s) (HashKey (val dl)) = Some d"
    "element_store s e = Some el" "e \<noteq> d"
  shows "Encountered_replace s key e =
     Inr (attach_element (set_eps (detach_victim s b d (HashKey (val dl))) e (\<lambda>_. count bk)) e b key)"
  using assms
  by (auto simp: Encountered_replace_def deref_bucket_def assert_def deref_element_def GetHash_def
        set_elements_def RemoveEntry_def delete_Element_def set_epsilon_def Insert_def set_parent_def
        attach_element_def detach_victim_def set_eps_def fun_upd_twist)

lemma Encountered_add_fresh_eq:
  assumes "buckets s = [] \<or> bucket_count s (hd (buckets s)) > 1"
    "\<forall>b \<in> set (buckets s). bucket_store s b \<noteq> None"
    "element_store s e = Some el" "e \<noteq> next_addr s"
  shows "Encountered_add s key e =
     Inr ((attach_element (with_new_bucket s 1 (next_addr s # buckets s)) e (next_addr s) key)
            \<lparr> numElements := numElements s + 1 \<rparr>)"
  using assms
  by (cases "buckets s")
     (auto simp: Encountered_add_def deref_bucket_def bucket_count_def new_Bucket_def set_elements_def
        set_parent_def deref_element_def Insert_def attach_element_def with_new_bucket_def)

lemma Encountered_add_head_eq:
  assumes "buckets s = b # bs" "bucket_store s b = Some bk" "count bk = 1"
    "element_store s e = Some el"
  shows "Encountered_add s key e =
     Inr ((attach_element s e b key) \<lparr> numElements := numElements s + 1 \<rparr>)"
  using assms
  by (auto simp: Encountered_add_def deref_bucket_def set_elements_def assert_def
        set_parent_def deref_element_def Insert_def attach_element_def)

lemma bucket_elements_type [simp]:
  "bucket_elements (s\<lparr> type := t \<rparr>) = bucket_elements s"
  "bucket_count (s\<lparr> type := t \<rparr>) = bucket_count s"
  by (simp_all add: bucket_elements_def bucket_count_def fun_eq_iff)

lemma element_ok_type [simp]: "element_ok (s\<lparr> type := t \<rparr>) b x = element_ok s b x"
  by (auto simp: element_ok_def split: option.splits)

lemma entry_ok_type [simp]: "entry_ok (s\<lparr> type := t \<rparr>) ke = entry_ok s ke"
  by (auto simp: entry_ok_def split: option.splits)

lemma valid_upto_type: "valid_upto X s \<Longrightarrow> valid_upto X (s\<lparr> type := Some t \<rparr>)"
  by (simp add: valid_upto_def)

lemma ordered_simps [simp]:
  "ordered (alloc_element s v eps) = ordered s"
  "ordered (attach_element s e b key) = ordered s"
  "ordered (detach_victim s b d key) = ordered s"
  "ordered (set_eps s e f) = ordered s"
  "ordered (s\<lparr> numElements := n \<rparr>) = ordered s"
  "ordered (s\<lparr> pruned := p \<rparr>) = ordered s"
  "ordered (s\<lparr> type := t \<rparr>) = ordered s"
  by (simp_all add: ordered_def chain_counts_def)

lemma word_less_succ: "(x :: 64 word) \<noteq> - 1 \<Longrightarrow> x < x + 1"
  by (metis inc_less_eq_triv_imp linorder_less_linear word_le_less_eq)

lemma Lookup_in_chain:
  assumes v: "valid_upto X s" and l: "Lookup s key = Some e"
  shows "\<exists>pre cb post. buckets s = pre @ cb # post \<and> e \<in> set (bucket_elements s cb)"
proof -
  from l have "(key, e) \<in> set (elementDict s)" by (simp add: Lookup_def map_of_SomeD)
  with v have "entry_ok s (key, e)" by (auto simp: valid_upto_def)
  then obtain cb where "cb \<in> set (buckets s)" "e \<in> set (bucket_elements s cb)"
    by (auto simp: entry_ok_def)
  then show ?thesis by (metis split_list)
qed

lemma inc_target_one [simp]: "inc_target s cb 1 = bucket_count s cb + 1"
  by (simp add: inc_target_def)

lemma Encountered_body_preserves:
  assumes v: "valid_upto {} s" and ty: "type s \<noteq> None" and ord: "ordered s" and nw: "no_wrap s"
    and r: "(case Lookup s (HashKey x) of
               Some e \<Rightarrow> IncrementCounter s e 1
             | None \<Rightarrow>
                 (let (e, s1) = new_Element s x in
                  if numElements s1 < size_cap s1
                  then Encountered_add s1 (HashKey x) e
                  else ebind (Encountered_replace s1 (HashKey x) e) (\<lambda>s2. IncrementCounter s2 e 1))) = Inr s'"
  shows "valid_upto {} s' \<and> ordered s'"
proof (cases "Lookup s (HashKey x)")
  case (Some e)
  from Lookup_in_chain [OF v Some] obtain pre cb post where
    bl: "buckets s = pre @ cb # post" and e: "e \<in> set (bucket_elements s cb)" by blast
  from r Some have s': "s' = inc_result s pre cb post e 1"
    by (simp add: IncrementCounter_inc_result [OF v bl e])
  from nw bl have "bucket_count s cb \<noteq> - 1" by (simp add: no_wrap_def chain_counts_def)
  then have "bucket_count s cb < inc_target s cb 1" by (simp add: word_less_succ)
  from inc_result_valid [OF v bl e] inc_result_ordered [OF v bl e ord this] s'
  show ?thesis by simp
next
  case None
  let ?n = "next_addr s"
  let ?s1 = "alloc_element s x 0"
  let ?key = "HashKey x"
  have v1: "valid_upto {} ?s1" by (rule valid_upto_alloc [OF v])
  have absent: "map_of (elementDict s) ?key = None" using None by (simp add: Lookup_def)
  have el1: "element_store ?s1 ?n = Some \<lparr> epsilon = 0, val = x, parent = None \<rparr>" by simp
  show ?thesis
  proof (cases "numElements s < size_cap s")
    case True
    with r None have r1: "Encountered_add ?s1 ?key ?n = Inr s'"
      by (simp add: new_Element_eq)
    show ?thesis
    proof (cases "buckets s = [] \<or> bucket_count s (hd (buckets s)) > 1")
      case fresh: True
      let ?b = "Suc ?n"
      let ?s2 = "with_new_bucket ?s1 1 (?b # buckets s)"
      have "\<forall>b \<in> set (buckets ?s1). bucket_store ?s1 b \<noteq> None"
        using v by (auto simp: valid_upto_def)
      from Encountered_add_fresh_eq [of ?s1 ?n _ ?key, OF _ this el1] fresh r1
      have s': "s' = (attach_element ?s2 ?n ?b ?key)\<lparr> numElements := numElements s + 1 \<rparr>"
        by simp
      have "buckets ?s1 = [] @ buckets s" by simp
      from valid_upto_new [OF v1 this, of 1] ty have v2: "valid_upto {?b} ?s2" by simp
      have "valid_upto ({?b} - {?b}) (attach_element ?s2 ?n ?b ?key)"
        by (rule valid_upto_attach [OF v2, where el = "\<lparr> epsilon = 0, val = x, parent = None \<rparr>"])
           (use absent in simp_all)
      moreover have "ordered (with_new_bucket ?s1 1 (?b # buckets s))"
      proof -
        from v have "?b \<notin> set (buckets s)" by (auto simp: valid_upto_def)
        then have m: "map (bucket_count ?s2) (buckets s) = map (bucket_count s) (buckets s)"
          by (intro map_cong) (auto simp: bucket_count_new)
        have cc: "chain_counts ?s2 = 1 # chain_counts s"
          by (simp add: chain_counts_def m bucket_count_new)
        have "\<forall>c \<in> set (chain_counts s). 1 < c"
        proof (cases "buckets s")
          case Nil then show ?thesis by (simp add: chain_counts_def)
        next
          case (Cons a as)
          with fresh have "1 < bucket_count s a" by simp
          with ord Cons show ?thesis
            by (auto simp: ordered_def chain_counts_def)
        qed
        with ord show ?thesis
          by (simp add: ordered_def cc)
      qed
      ultimately show ?thesis by (simp add: s')
    next
      case head: False
      then obtain b bs where bl: "buckets s = b # bs" by (cases "buckets s") auto
      with v obtain bk where bk: "bucket_store s b = Some bk" by (auto simp: valid_upto_def)
      have c1: "count bk = 1"
      proof (rule ccontr)
        assume "count bk \<noteq> 1"
        with r1 bl bk head show False
          by (auto simp: Encountered_add_def deref_bucket_def bucket_count_def assert_def)
      qed
      from Encountered_add_head_eq [of ?s1 b bs bk ?n _ ?key] bl bk c1 r1
      have s': "s' = (attach_element ?s1 ?n b ?key)\<lparr> numElements := numElements s + 1 \<rparr>"
        by simp
      have "valid_upto ({} - {b}) (attach_element ?s1 ?n b ?key)"
        by (rule valid_upto_attach [OF v1, where el = "\<lparr> epsilon = 0, val = x, parent = None \<rparr>"])
           (use absent bl in simp_all)
      with ord show ?thesis by (simp add: s')
    qed
  next
    case False
    with r None have r2: "ebind (Encountered_replace ?s1 ?key ?n) (\<lambda>s2. IncrementCounter s2 ?n 1) = Inr s'"
      by (simp add: new_Element_eq)
    have ne: "buckets s \<noteq> []"
    proof
      assume "buckets s = []"
      with r2 show False by (simp add: Encountered_replace_def)
    qed
    then obtain b bs where bl: "buckets s = b # bs" by (cases "buckets s") auto
    with v obtain bk where bk: "bucket_store s b = Some bk" and nonempty: "bucket_elements s b \<noteq> []"
      by (auto simp: valid_upto_def)
    then obtain d ds where ds: "elements bk = d # ds"
      by (cases "elements bk") (auto simp: bucket_elements_def)
    have bm: "b \<in> set (buckets s)" by (simp add: bl)
    have dm: "d \<in> set (bucket_elements s b)" by (simp add: bucket_elements_def bk ds)
    from valid_upto_element [OF v bm dm] obtain dl where
      dl: "element_store s d = Some dl" "map_of (elementDict s) (HashKey (val dl)) = Some d" "d < ?n"
      by (auto simp: element_ok_def split: option.splits)
    let ?s2 = "attach_element (set_eps (detach_victim ?s1 b d (HashKey (val dl))) ?n (\<lambda>_. count bk)) ?n b ?key"
    have "Encountered_replace ?s1 ?key ?n = Inr ?s2"
      by (rule Encountered_replace_eq [where bs = bs and ds = ds])
         (use bl bk ds dl ty in \<open>auto\<close>)
    with r2 have r3: "IncrementCounter ?s2 ?n 1 = Inr s'" by simp
    have "valid_upto (insert b {}) (detach_victim ?s1 b d (HashKey (val dl)))"
      by (rule valid_upto_detach [OF v1, where ds = ds and dl = dl])
         (use bl bk ds dl in \<open>auto simp: bucket_elements_def\<close>)
    then have v3: "valid_upto {b} (set_eps (detach_victim ?s1 b d (HashKey (val dl))) ?n (\<lambda>_. count bk))"
      by simp
    have "valid_upto ({b} - {b}) ?s2"
      by (rule valid_upto_attach [OF v3, where el = "\<lparr> epsilon = count bk, val = x, parent = None \<rparr>"])
         (use bl dl absent in \<open>auto simp: delete_conv'\<close>)
    then have v2: "valid_upto {} ?s2" by simp
    have bl2: "buckets ?s2 = [] @ b # bs" by (simp add: bl)
    have e2: "?n \<in> set (bucket_elements ?s2 b)"
      by (simp add: bucket_elements_attach detach_victim_def bk)
    have ord2: "ordered ?s2" using ord by simp
    from nw bl have "bucket_count s b \<noteq> - 1" by (simp add: no_wrap_def chain_counts_def)
    then have lt: "bucket_count ?s2 b < inc_target ?s2 b 1" by (simp add: word_less_succ)
    from r3 have s': "s' = inc_result ?s2 [] b bs ?n 1"
      by (simp add: IncrementCounter_inc_result [OF v2 bl2 e2])
    from inc_result_valid [OF v2 bl2 e2] inc_result_ordered [OF v2 bl2 e2 ord2 lt]
    show ?thesis unfolding s' by blast
  qed
qed


subsection \<open>Encountered on a full sketch\<close>

lemma counted_nonempty:
  assumes "counted s" "numElements s \<noteq> 0"
  shows "buckets s \<noteq> []"
proof
  assume "buckets s = []"
  then have "all_elements s = []" by (simp add: all_elements_def)
  with assms show False by (simp add: counted_def unat_eq_0)
qed


text \<open>
  Claim C1. On a well-formed sketch with an established type, \<open>size > 0\<close> and
  \<open>numElements = size\<close>, \<^verbatim>\<open>Encountered\<close> of a value \<open>x\<close> that is not in the element
  table takes the head bucket \<open>b\<close> of the chain (of minimum count), evicts its first
  element \<open>d\<close> (it leaves the table and is destroyed), gives the new element the
  epsilon \<open>count of b\<close> and appends it at the back of \<open>b\<close>: that is the state \<open>s2\<close>, on
  which the call then runs \<^verbatim>\<open>IncrementCounter\<close> once. In the result \<open>s'\<close> the new element
  is in the table, its epsilon is the old minimum count and the count of its bucket is
  the old minimum count plus 1 (64-bit addition).
\<close>

theorem Encountered_replaces_minimum:
  assumes v: "valid s" and c: "counted s" and ord: "ordered s"
    and ty: "type s = Some (GetType x)"
    and cap: "0 < size_cap s" and full: "numElements s = size_cap s"
    and new: "Lookup s (HashKey x) = None"
  shows "\<exists>b bs d ds dl s2 s'.
     buckets s = b # bs \<and> (\<forall>b' \<in> set bs. bucket_count s b < bucket_count s b') \<and>
     bucket_elements s b = d # ds \<and> element_store s d = Some dl \<and>
     s2 = attach_element
            (set_eps (detach_victim (alloc_element s x 0) b d (HashKey (val dl)))
               (next_addr s) (\<lambda>_. bucket_count s b))
            (next_addr s) b (HashKey x) \<and>
     bucket_elements s2 b = ds @ [next_addr s] \<and>
     element_store s2 (next_addr s) = Some \<lparr> epsilon = bucket_count s b, val = x, parent = Some b \<rparr> \<and>
     Encountered s x = IncrementCounter s2 (next_addr s) 1 \<and>
     Encountered s x = Inr s' \<and>
     Lookup s' (HashKey (val dl)) = None \<and> element_store s' d = None \<and>
     Lookup s' (HashKey x) = Some (next_addr s) \<and>
     (\<exists>p. element_store s' (next_addr s) = Some \<lparr> epsilon = bucket_count s b, val = x, parent = Some p \<rparr> \<and>
          p \<in> set (buckets s') \<and> bucket_count s' p = bucket_count s b + 1 \<and>
          last (bucket_elements s' p) = next_addr s) \<and>
     numElements s' = numElements s \<and> valid s'"
proof -
  from v have v0: "valid_upto {} s" by (simp add: valid_def)
  let ?n = "next_addr s"
  let ?s1 = "alloc_element s x 0"
  let ?key = "HashKey x"
  from cap full have n0: "numElements s \<noteq> 0" by auto
  from counted_nonempty [OF c n0] obtain b bs where bl: "buckets s = b # bs"
    by (cases "buckets s") auto
  have bm: "b \<in> set (buckets s)" by (simp add: bl)
  from v0 bm obtain bk where bk: "bucket_store s b = Some bk" and nonempty: "bucket_elements s b \<noteq> []"
    by (auto simp: valid_upto_def)
  then obtain d ds where ds: "elements bk = d # ds"
    by (cases "elements bk") (auto simp: bucket_elements_def)
  have bes: "bucket_elements s b = d # ds" by (simp add: bucket_elements_def bk ds)
  have bc: "bucket_count s b = count bk" by (simp add: bucket_count_def bk)
  have dm: "d \<in> set (bucket_elements s b)" by (simp add: bes)
  from valid_upto_element [OF v0 bm dm] obtain dl where
    dl: "element_store s d = Some dl" "map_of (elementDict s) (HashKey (val dl)) = Some d" "d < ?n"
    by (auto simp: element_ok_def split: option.splits)
  have absent: "map_of (elementDict s) ?key = None" using new by (simp add: Lookup_def)
  with dl have kne: "HashKey (val dl) \<noteq> ?key" by auto
  have minimum: "\<forall>b' \<in> set bs. bucket_count s b < bucket_count s b'"
    using ord by (simp add: ordered_alt bl)
  let ?s2 = "attach_element (set_eps (detach_victim ?s1 b d (HashKey (val dl))) ?n (\<lambda>_. bucket_count s b)) ?n b ?key"
  have v1: "valid_upto {} ?s1" by (rule valid_upto_alloc [OF v0])
  have rep: "Encountered_replace ?s1 ?key ?n = Inr ?s2"
    unfolding bc
    by (rule Encountered_replace_eq [where bs = bs and ds = ds])
       (use bl bk ds dl ty in \<open>auto\<close>)
  have enc: "Encountered s x = IncrementCounter ?s2 ?n 1"
    using n0 ty new full rep
    by (simp add: Encountered_def same_type_def GetHash_def new_Element_eq)
  have "valid_upto (insert b {}) (detach_victim ?s1 b d (HashKey (val dl)))"
    by (rule valid_upto_detach [OF v1, where ds = ds and dl = dl])
       (use bl bes dl in \<open>auto\<close>)
  then have v3: "valid_upto {b} (set_eps (detach_victim ?s1 b d (HashKey (val dl))) ?n (\<lambda>_. bucket_count s b))"
    by simp
  have "valid_upto ({b} - {b}) ?s2"
    by (rule valid_upto_attach [OF v3, where el = "\<lparr> epsilon = bucket_count s b, val = x, parent = None \<rparr>"])
       (use bl dl absent in \<open>auto simp: delete_conv'\<close>)
  then have v2: "valid_upto {} ?s2" by simp
  have bl2: "buckets ?s2 = [] @ b # bs" by (simp add: bl)
  have be2: "bucket_elements ?s2 b = ds @ [?n]"
    by (simp add: bucket_elements_attach bucket_elements_detach bes bk)
  have e2: "?n \<in> set (bucket_elements ?s2 b)" by (simp add: be2)
  have es2: "element_store ?s2 ?n = Some \<lparr> epsilon = bucket_count s b, val = x, parent = Some b \<rparr>"
    using dl(3) by simp
  let ?s' = "inc_result ?s2 [] b bs ?n 1"
  let ?p = "inc_dest ?s2 b bs 1"
  have res: "Encountered s x = Inr ?s'"
    unfolding enc by (rule IncrementCounter_inc_result [OF v2 bl2 e2])
  have vs': "valid ?s'" unfolding valid_def by (rule inc_result_valid [OF v2 bl2 e2])
  have l1: "Lookup ?s' (HashKey (val dl)) = None"
    using kne by (simp add: Lookup_def inc_result_fields update_conv' delete_conv')
  have l2: "Lookup ?s' ?key = Some ?n"
    by (simp add: Lookup_def inc_result_fields update_conv')
  have l3: "element_store ?s' d = None"
    using dl(3) by (simp add: inc_result_fields)
  have l4: "element_store ?s' ?n = Some \<lparr> epsilon = bucket_count s b, val = x, parent = Some ?p \<rparr>"
    using dl(3) by (simp add: inc_result_fields)
  have bsp: "bucket_store ?s' ?p = Some \<lparr> elements = (if reuse ?s2 (inc_target ?s2 b 1) bs then bucket_elements ?s2 ?p else []) @ [?n],
       count = inc_target ?s2 b 1 \<rparr>"
    using inc_dest_neq(1) [OF v2 bl2, of 1] by (simp add: inc_result_bucket_store [OF v2 bl2 e2])
  have "bucket_count ?s' ?p = inc_target ?s2 b 1"
    unfolding bucket_count_def [of ?s'] bsp by simp
  then have l5: "bucket_count ?s' ?p = bucket_count s b + 1"
    by simp
  have l6: "last (bucket_elements ?s' ?p) = ?n"
    unfolding bucket_elements_def [of ?s'] bsp by simp
  have l7: "?p \<in> set (buckets ?s')"
  proof (cases "reuse ?s2 (inc_target ?s2 b 1) bs")
    case True
    then have "?p \<in> set (dropWhile (\<lambda>b'. bucket_count ?s2 b' < inc_target ?s2 b 1) bs)"
      unfolding reuse_def inc_dest_def by simp
    then show ?thesis by (simp add: inc_result_buckets [OF v2 bl2 e2])
  next
    case False
    then show ?thesis by (simp add: inc_result_buckets [OF v2 bl2 e2] inc_dest_def)
  qed
  have l8: "numElements ?s' = numElements s" by (simp add: inc_result_fields)
  from bl minimum bes dl(1) be2 es2 enc res l1 l2 l3 l4 l5 l6 l7 l8 vs'
  show ?thesis by blast
qed

theorem Encountered_replaces_minimum_witness:
  "valid sketch_ABC \<and> counted sketch_ABC \<and> ordered sketch_ABC \<and>
   type sketch_ABC = Some (GetType (StringVal ''D'')) \<and>
   0 < size_cap sketch_ABC \<and> numElements sketch_ABC = size_cap sketch_ABC \<and>
   Lookup sketch_ABC (HashKey (StringVal ''D'')) = None \<and>
   \<not> isl (Encountered sketch_ABC (StringVal ''D'')) \<and>
   observe (Encountered sketch_ABC (StringVal ''D'')) =
     Inr ([(1, [(StringVal ''B'', 0), (StringVal ''C'', 0)]), (2, [(StringVal ''D'', 1)])], 3, False)"
proof -
  have h: "valid sketch_ABC" "counted sketch_ABC" "ordered sketch_ABC"
    "type sketch_ABC = Some (GetType (StringVal ''D''))"
    "0 < size_cap sketch_ABC" "numElements sketch_ABC = size_cap sketch_ABC"
    "Lookup sketch_ABC (HashKey (StringVal ''D'')) = None"
    by code_simp+
  from Encountered_replaces_minimum [OF h]
  obtain s' where "Encountered sketch_ABC (StringVal ''D'') = Inr s'"
    by blast
  then have r: "\<not> isl (Encountered sketch_ABC (StringVal ''D''))"
    by simp
  have o: "observe (Encountered sketch_ABC (StringVal ''D'')) =
     Inr ([(1, [(StringVal ''B'', 0), (StringVal ''C'', 0)]), (2, [(StringVal ''D'', 1)])], 3, False)"
    by code_simp
  from h r o show ?thesis by blast
qed


subsection \<open>GetTopK\<close>

lemma element_values_eq:
  assumes "\<forall>e \<in> set es. element_store s e \<noteq> None"
  shows "element_values s es = Inr (map (\<lambda>e. val (the (element_store s e))) es)"
  using assms by (induction es) (auto simp: deref_element_def)

lemma bucket_values_eq:
  assumes "bucket_store s b = Some bk" "\<forall>e \<in> set (elements bk). element_store s e \<noteq> None"
  shows "bucket_values s b = map (\<lambda>e. val (the (element_store s e))) (elements bk)"
proof -
  have "concat (map (\<lambda>e. case element_store s e of None \<Rightarrow> [] | Some el \<Rightarrow> [(val el, epsilon el)]) es)
      = map (\<lambda>e. (val (the (element_store s e)), epsilon (the (element_store s e)))) es"
    if "\<forall>e \<in> set es. element_store s e \<noteq> None" for es
    using that by (induction es) auto
  from this [OF assms(2)] assms(1) show ?thesis
    by (simp add: bucket_values_def bucket_view_def comp_def)
qed

lemma valid_bucket_values:
  assumes v: "valid_upto X s" and b: "b \<in> set (buckets s)"
  shows "\<exists>bk. bucket_store s b = Some bk \<and> element_values s (elements bk) = Inr (bucket_values s b)"
proof -
  from valid_upto_bucket [OF v b] obtain bk where bk: "bucket_store s b = Some bk" by blast
  have "\<forall>e \<in> set (elements bk). element_store s e \<noteq> None"
  proof
    fix e assume "e \<in> set (elements bk)"
    then have "e \<in> set (bucket_elements s b)" by (simp add: bucket_elements_def bk)
    from valid_upto_element [OF v b this] show "element_store s e \<noteq> None"
      by (auto simp: element_ok_def split: option.splits)
  qed
  with bk show ?thesis by (simp add: element_values_eq bucket_values_eq)
qed

lemma topk_loop_eq:
  assumes v: "valid_upto X s" and sub: "set bs \<subseteq> set (buckets s)"
  shows "\<exists>n \<le> length bs.
           topk_loop s k t bs = Inr (t @ concat (map (bucket_values s) (take n bs))) \<and>
           (k \<le> int (length (t @ concat (map (bucket_values s) (take n bs)))) \<or> n = length bs) \<and>
           (\<forall>m < n. int (length (t @ concat (map (bucket_values s) (take m bs)))) < k)"
  using sub
proof (induction bs arbitrary: t)
  case Nil
  then show ?case by simp
next
  case (Cons b bs)
  show ?case
  proof (cases "int (length t) < k")
    case False
    then show ?thesis by (intro exI [of _ 0]) simp
  next
    case True
    from Cons.prems have bm: "b \<in> set (buckets s)" and sub': "set bs \<subseteq> set (buckets s)" by auto
    from valid_bucket_values [OF v bm] obtain bk where
      bk: "bucket_store s b = Some bk" "element_values s (elements bk) = Inr (bucket_values s b)"
      by blast
    show ?thesis
    proof (cases "bs = []")
      case Nil: True
      with True bk show ?thesis
        by (intro exI [of _ 1]) (simp add: deref_bucket_def)
    next
      case ne: False
      from Cons.IH [OF sub', of "t @ bucket_values s b"] obtain n where
        n: "n \<le> length bs"
        "topk_loop s k (t @ bucket_values s b) bs = Inr ((t @ bucket_values s b) @ concat (map (bucket_values s) (take n bs)))"
        "k \<le> int (length ((t @ bucket_values s b) @ concat (map (bucket_values s) (take n bs)))) \<or> n = length bs"
        "\<forall>m < n. int (length ((t @ bucket_values s b) @ concat (map (bucket_values s) (take m bs)))) < k"
        by blast
      have "\<forall>m < Suc n. int (length (t @ concat (map (bucket_values s) (take m (b # bs))))) < k"
      proof (intro allI impI)
        fix m assume "m < Suc n"
        then show "int (length (t @ concat (map (bucket_values s) (take m (b # bs))))) < k"
          using True n(4) by (cases m) auto
      qed
      with True bk ne n show ?thesis
        by (intro exI [of _ "Suc n"]) (simp add: deref_bucket_def)
    qed
  qed
qed


text \<open>
  Claim C9. On a well-formed sketch with \<open>numElements = 0\<close>, \<^verbatim>\<open>GetTopK(k)\<close> reports
  the error and yields nothing. With \<open>numElements > 0\<close> it returns the values of the
  \<open>n\<close> buckets of highest count, whole bucket by whole bucket from the tail of the chain
  down, where \<open>n\<close> is the first number of buckets that holds at least \<open>k\<close> values, or
  all buckets of the chain when there are fewer than \<open>k\<close> values: before each bucket it
  emits, fewer than \<open>k\<close> values had been emitted. So the result can be longer than \<open>k\<close>.
\<close>

theorem GetTopK_whole_buckets:
  assumes v: "valid s" and c: "counted s"
  shows "(numElements s = 0 \<longrightarrow> GetTopK s k = Inl (ReporterError ''Cannot return topk of empty'')) \<and>
         (numElements s \<noteq> 0 \<longrightarrow>
            (\<exists>n \<le> length (buckets s).
               GetTopK s k = Inr (emitted s n) \<and>
               (k \<le> int (length (emitted s n)) \<or> n = length (buckets s)) \<and>
               (\<forall>m < n. int (length (emitted s m)) < k)))"
proof (intro conjI impI)
  assume "numElements s = 0"
  then show "GetTopK s k = Inl (ReporterError ''Cannot return topk of empty'')"
    by (simp add: GetTopK_def)
next
  assume n0: "numElements s \<noteq> 0"
  from counted_nonempty [OF c n0] have ne: "buckets s \<noteq> []" .
  from v have v': "valid_upto {} s" by (simp add: valid_def)
  from topk_loop_eq [OF v', of "rev (buckets s)" k "[]"] n0 ne
  show "\<exists>n \<le> length (buckets s).
               GetTopK s k = Inr (emitted s n) \<and>
               (k \<le> int (length (emitted s n)) \<or> n = length (buckets s)) \<and>
               (\<forall>m < n. int (length (emitted s m)) < k)"
    by (simp add: GetTopK_def emitted_def)
qed

theorem GetTopK_whole_buckets_witness:
  "valid sketch_ABCD \<and> counted sketch_ABCD \<and> numElements sketch_ABCD \<noteq> 0 \<and>
   \<not> isl (GetTopK sketch_ABCD 2) \<and>
   GetTopK sketch_ABCD 2 = Inr [StringVal ''D'', StringVal ''B'', StringVal ''C''] \<and>
   valid (TopkVal_init 3) \<and> counted (TopkVal_init 3) \<and> numElements (TopkVal_init 3) = 0 \<and>
   GetTopK (TopkVal_init 3) 2 = Inl (ReporterError ''Cannot return topk of empty'')"
proof -
  have h: "valid sketch_ABCD" "counted sketch_ABCD"
    by code_simp+
  have n: "numElements sketch_ABCD \<noteq> 0"
    by code_simp
  from GetTopK_whole_buckets [OF h, of 2] n
  obtain m where "GetTopK sketch_ABCD 2 = Inr (emitted sketch_ABCD m)"
    by blast
  then have r: "\<not> isl (GetTopK sketch_ABCD 2)"
    by simp
  have e: "GetTopK sketch_ABCD 2 = Inr [StringVal ''D'', StringVal ''B'', StringVal ''C'']"
    by code_simp
  have h0: "valid (TopkVal_init 3)" "counted (TopkVal_init 3)"
    by code_simp+
  have n0: "numElements (TopkVal_init 3) = 0"
    by code_simp
  from GetTopK_whole_buckets [OF h0, of 2] n0
  have e0: "GetTopK (TopkVal_init 3) 2 = Inl (ReporterError ''Cannot return topk of empty'')"
    by blast
  from h n r e h0 n0 e0 show ?thesis by blast
qed


subsection \<open>Merge\<close>

lemma inc_result_chain_counts:
  assumes v: "valid_upto {} s" and bl: "buckets s = pre @ cb # post"
    and e: "e \<in> set (bucket_elements s cb)"
  shows "chain_counts (inc_result s pre cb post e cnt) =
     map (bucket_count s) pre @ (if bucket_elements s cb = [e] then [] else [bucket_count s cb])
       @ map (bucket_count s) (takeWhile (\<lambda>b. bucket_count s b < inc_target s cb cnt) post)
       @ (if reuse s (inc_target s cb cnt) post then [] else [inc_target s cb cnt])
       @ map (bucket_count s) (dropWhile (\<lambda>b. bucket_count s b < inc_target s cb cnt) post)"
proof -
  let ?s' = "inc_result s pre cb post e cnt"
  let ?t = "inc_target s cb cnt"
  from v have fresh: "next_addr s \<notin> set (buckets s)" by (auto simp: valid_upto_def)
  from v have dist: "cb \<notin> set pre" "cb \<notin> set post" by (auto simp: valid_upto_def bl)
  have agree: "bucket_count ?s' b = bucket_count s b" if "b \<in> set pre \<union> set post" for b
  proof (cases "b = inc_dest s cb post cnt")
    case True
    with that fresh have "reuse s ?t post" by (auto simp: inc_dest_def bl split: if_splits)
    then have "bucket_count s (inc_dest s cb post cnt) = ?t" by (simp add: reuse_def inc_dest_def)
    with True inc_dest_neq(1) [OF v bl, of cnt] show ?thesis
      by (simp add: inc_result_bucket_count [OF v bl e])
  next
    case False
    with dist that show ?thesis
      by (auto simp: inc_result_bucket_count [OF v bl e] split: if_splits)
  qed
  have m: "map (bucket_count ?s') xs = map (bucket_count s) xs" if "set xs \<subseteq> set pre \<union> set post" for xs
    using that agree by (intro map_cong) auto
  have sub: "set (takeWhile P post) \<subseteq> set pre \<union> set post" "set (dropWhile P post) \<subseteq> set pre \<union> set post" for P
    by (auto dest: set_takeWhileD set_dropWhileD)
  have cbc: "bucket_count ?s' cb = bucket_count s cb" if "bucket_elements s cb \<noteq> [e]"
    using that by (simp add: inc_result_bucket_count [OF v bl e])
  have nc: "bucket_count ?s' (next_addr s) = ?t" if "\<not> reuse s ?t post"
    using that fresh by (auto simp: inc_result_bucket_count [OF v bl e] inc_dest_def bl)
  show ?thesis
    unfolding chain_counts_def inc_result_buckets [OF v bl e]
    by (simp add: m sub cbc nc)
qed

lemma inc_result_counts_subset:
  assumes v: "valid_upto {} s" and bl: "buckets s = pre @ cb # post"
    and e: "e \<in> set (bucket_elements s cb)"
  shows "set (chain_counts (inc_result s pre cb post e cnt)) \<subseteq>
     insert (inc_target s cb cnt)
       (set (map (bucket_count s) (pre @ (if bucket_elements s cb = [e] then [] else [cb]) @ post)))"
proof -
  have "set (map f (takeWhile P post)) \<union> set (map f (dropWhile P post)) \<subseteq> set (map f post)" for f :: "addr \<Rightarrow> 64 word" and P
    by (auto dest: set_takeWhileD set_dropWhileD)
  then show ?thesis
    unfolding inc_result_chain_counts [OF v bl e] by (auto dest: set_takeWhileD set_dropWhileD)
qed

lemma unat_add_no_wrap:
  "unat (c :: 64 word) + unat d < 2 ^ 64 \<Longrightarrow> unat (c + d) = unat c + unat d"
  by (simp add: unat_add_lem [THEN iffD1])

lemma no_wrap_less:
  assumes "unat (c :: 64 word) + unat d < 2 ^ 64" "d \<noteq> 0"
  shows "c < c + d"
proof -
  from assms(2) have "0 < unat d" by (simp add: unat_gt_0)
  with unat_add_no_wrap [OF assms(1)] show ?thesis by (simp add: word_less_nat_alt)
qed

lemma merge_element_old_eq:
  assumes "Lookup s (HashKey (val e)) = Some olde" "type s \<noteq> None" "element_store s olde \<noteq> None"
  shows "merge_element s e c =
     IncrementCounter (set_eps s olde (\<lambda>x. x + epsilon e)) olde (ucast c)"
  using assms by (auto simp: merge_element_def GetHash_def set_epsilon_eq)

lemma merge_element_new_eq:
  assumes "Lookup s (HashKey (val e)) = None" "type s \<noteq> None"
    "buckets s = [] \<or> (\<exists>bk. bucket_store s (hd (buckets s)) = Some bk \<and> 0 < count bk)"
  shows "merge_element s e c =
     IncrementCounter
       (set_eps
          ((attach_element
              (with_new_bucket (alloc_element s (val e) 0) 0 (Suc (next_addr s) # buckets s))
              (next_addr s) (Suc (next_addr s)) (HashKey (val e)))
             \<lparr> numElements := numElements s + 1 \<rparr>)
          (next_addr s) (\<lambda>x. x + epsilon e))
       (next_addr s) (ucast c)"
proof -
  from assms(2) obtain t where t: "type s = Some t" by auto
  show ?thesis
  proof (cases "buckets s")
    case Nil
    with assms(1) t show ?thesis
      by (simp add: merge_element_def GetHash_def new_Element_eq new_Bucket_def set_parent_def
          deref_element_def set_elements_def deref_bucket_def Insert_def Let_def set_epsilon_def
          attach_element_def with_new_bucket_def alloc_element_def set_eps_def)
         (rule arg_cong [where f = "\<lambda>s. IncrementCounter s _ _"], simp)
  next
    case (Cons b bs)
    with assms(3) obtain bk where "bucket_store s b = Some bk" "0 < count bk" by auto
    with Cons assms(1) t show ?thesis
      by (simp add: merge_element_def GetHash_def new_Element_eq new_Bucket_def set_parent_def
          deref_element_def set_elements_def deref_bucket_def Insert_def Let_def set_epsilon_def
          attach_element_def with_new_bucket_def alloc_element_def set_eps_def assert_def)
         (rule arg_cong [where f = "\<lambda>s. IncrementCounter s _ _"], simp)
  qed
qed

lemma chain_counts_simps [simp]:
  "chain_counts (alloc_element s v eps) = chain_counts s"
  "chain_counts (attach_element s e b key) = chain_counts s"
  "chain_counts (detach_victim s b d key) = chain_counts s"
  "chain_counts (set_eps s e f) = chain_counts s"
  "chain_counts (s\<lparr> numElements := n \<rparr>) = chain_counts s"
  "chain_counts (s\<lparr> pruned := p \<rparr>) = chain_counts s"
  "chain_counts (s\<lparr> type := t \<rparr>) = chain_counts s"
  by (simp_all add: chain_counts_def)

lemma chain_counts_new_head:
  assumes "valid_upto X s"
  shows "chain_counts (with_new_bucket s c (next_addr s # buckets s)) = c # chain_counts s"
proof -
  from assms have "next_addr s \<notin> set (buckets s)" by (auto simp: valid_upto_def)
  then have "map (bucket_count (with_new_bucket s c (next_addr s # buckets s))) (buckets s)
      = map (bucket_count s) (buckets s)"
    by (intro map_cong) (auto simp: bucket_count_new)
  then show ?thesis by (simp add: chain_counts_def bucket_count_new)
qed

lemma merge_element_step:
  assumes inv: "merge_inv M s" and d0: "count32 c \<noteq> 0" and bound: "M + unat (count32 c) < 2 ^ 64"
  shows "\<exists>s'. merge_element s e c = Inr s' \<and> merge_inv (M + unat (count32 c)) s'"
proof -
  let ?d = "count32 c"
  from inv have v: "valid_upto {} s" and ty: "type s \<noteq> None" and ord: "ordered s"
    and pos: "positive s" and bd: "bounded M s"
    by (simp_all add: merge_inv_def)
  have tgt: "inc_target s' cb (ucast c) = bucket_count s' cb + ?d" for s' cb
    by (simp add: inc_target_def count32_def)
  have d_pos: "0 < unat ?d" using d0 by (simp add: unat_gt_0)
  show ?thesis
  proof (cases "Lookup s (HashKey (val e))")
    case (Some olde)
    from Lookup_in_chain [OF v Some] obtain pre cb post where
      bl: "buckets s = pre @ cb # post" and oe: "olde \<in> set (bucket_elements s cb)" by blast
    have cbm: "cb \<in> set (buckets s)" by (simp add: bl)
    from valid_upto_element [OF v cbm oe] have live: "element_store s olde \<noteq> None"
      by (auto simp: element_ok_def split: option.splits)
    let ?s8 = "set_eps s olde (\<lambda>x. x + epsilon e)"
    let ?s' = "inc_result ?s8 pre cb post olde (ucast c)"
    have v8: "valid_upto {} ?s8" using v by simp
    have bl8: "buckets ?s8 = pre @ cb # post" by (simp add: bl)
    have oe8: "olde \<in> set (bucket_elements ?s8 cb)" using oe by simp
    have ord8: "ordered ?s8" using ord by simp
    have res: "merge_element s e c = Inr ?s'"
      unfolding merge_element_old_eq [OF Some ty live]
      by (rule IncrementCounter_inc_result [OF v8 bl8 oe8])
    from bd bl have cM: "unat (bucket_count s cb) \<le> M" by (simp add: bounded_def chain_counts_def)
    with bound have nw: "unat (bucket_count s cb) + unat ?d < 2 ^ 64" by simp
    have lt: "bucket_count ?s8 cb < inc_target ?s8 cb (ucast c)"
      unfolding tgt using no_wrap_less [OF nw d0] by simp
    have tu: "unat (inc_target ?s8 cb (ucast c)) = unat (bucket_count s cb) + unat ?d"
      unfolding tgt using unat_add_no_wrap [OF nw] by simp
    have sub: "set (chain_counts ?s') \<subseteq> insert (inc_target ?s8 cb (ucast c)) (set (chain_counts s))"
      using inc_result_counts_subset [OF v8 bl8 oe8, of "ucast c"]
      by (auto simp: chain_counts_def bl split: if_splits)
    have "positive ?s'"
      unfolding positive_def
    proof
      fix x assume "x \<in> set (chain_counts ?s')"
      with sub have "x = inc_target ?s8 cb (ucast c) \<or> x \<in> set (chain_counts s)" by blast
      then show "x \<noteq> 0"
      proof
        assume "x = inc_target ?s8 cb (ucast c)"
        with tu d_pos show ?thesis by (auto simp: unat_eq_0)
      next
        assume "x \<in> set (chain_counts s)"
        with pos show ?thesis by (simp add: positive_def)
      qed
    qed
    moreover have "bounded (M + unat ?d) ?s'"
      unfolding bounded_def
    proof
      fix x assume "x \<in> set (chain_counts ?s')"
      with sub have "x = inc_target ?s8 cb (ucast c) \<or> x \<in> set (chain_counts s)" by blast
      then show "unat x \<le> M + unat ?d"
      proof
        assume "x = inc_target ?s8 cb (ucast c)"
        with tu cM show ?thesis by simp
      next
        assume "x \<in> set (chain_counts s)"
        with bd have "unat x \<le> M" by (simp add: bounded_def)
        then show ?thesis by simp
      qed
    qed
    moreover have "valid_upto {} ?s'" by (rule inc_result_valid [OF v8 bl8 oe8])
    moreover have "ordered ?s'" by (rule inc_result_ordered [OF v8 bl8 oe8 ord8 lt])
    moreover have "type ?s' \<noteq> None" using ty by (simp add: inc_result_fields)
    ultimately show ?thesis using res by (simp add: merge_inv_def)
  next
    case None
    let ?n = "next_addr s"
    let ?b = "Suc ?n"
    let ?key = "HashKey (val e)"
    let ?s1 = "alloc_element s (val e) 0"
    let ?s3 = "with_new_bucket ?s1 0 (?b # buckets s)"
    let ?s7 = "(attach_element ?s3 ?n ?b ?key)\<lparr> numElements := numElements s + 1 \<rparr>"
    let ?s8 = "set_eps ?s7 ?n (\<lambda>x. x + epsilon e)"
    let ?s' = "inc_result ?s8 [] ?b (buckets s) ?n (ucast c)"
    have front: "buckets s = [] \<or> (\<exists>bk. bucket_store s (hd (buckets s)) = Some bk \<and> 0 < count bk)"
    proof (cases "buckets s")
      case Nil then show ?thesis by simp
    next
      case (Cons a as)
      with v obtain bk where bk: "bucket_store s a = Some bk" by (auto simp: valid_upto_def)
      from pos Cons have "bucket_count s a \<noteq> 0" by (simp add: positive_def chain_counts_def)
      with bk have "0 < count bk" by (simp add: bucket_count_def word_neq_0_conv)
      with Cons bk show ?thesis by simp
    qed
    have absent: "map_of (elementDict s) ?key = None" using None by (simp add: Lookup_def)
    have v1: "valid_upto {} ?s1" by (rule valid_upto_alloc [OF v])
    have "buckets ?s1 = [] @ buckets s" by simp
    from valid_upto_new [OF v1 this, of 0] ty have v3: "valid_upto {?b} ?s3" by simp
    have "valid_upto ({?b} - {?b}) (attach_element ?s3 ?n ?b ?key)"
      by (rule valid_upto_attach [OF v3, where el = "\<lparr> epsilon = 0, val = val e, parent = None \<rparr>"])
         (use absent in simp_all)
    then have v8: "valid_upto {} ?s8" by simp
    have bl8: "buckets ?s8 = [] @ ?b # buckets s" by simp
    have be8: "bucket_elements ?s8 ?b = [?n]"
      by (simp add: bucket_elements_attach bucket_elements_new)
    have oe8: "?n \<in> set (bucket_elements ?s8 ?b)" unfolding be8 by simp
    have cc3: "chain_counts ?s3 = 0 # chain_counts s"
      using chain_counts_new_head [OF v1, of 0] by simp
    have cc8: "chain_counts ?s8 = 0 # chain_counts s"
      by (simp add: cc3)
    have ord8: "ordered ?s8"
      using ord pos by (auto simp: ordered_def cc3 positive_def word_neq_0_conv)
    have bc8: "bucket_count ?s8 ?b = 0" by (simp add: bucket_count_new)
    have res: "merge_element s e c = Inr ?s'"
      unfolding merge_element_new_eq [OF None ty front]
      by (rule IncrementCounter_inc_result [OF v8 bl8 oe8])
    have t8: "inc_target ?s8 ?b (ucast c) = ?d" unfolding tgt bc8 by simp
    have lt: "bucket_count ?s8 ?b < inc_target ?s8 ?b (ucast c)"
      unfolding t8 bc8 using d0 by (simp add: word_neq_0_conv)
    have "map (bucket_count ?s8) (buckets s) = chain_counts s"
      using cc8 by (simp add: chain_counts_def)
    then have sub: "set (chain_counts ?s') \<subseteq> insert ?d (set (chain_counts s))"
      using inc_result_counts_subset [OF v8 bl8 oe8, of "ucast c", unfolded be8 t8]
      by simp
    have "positive ?s'"
      unfolding positive_def using sub pos d0 by (auto simp: positive_def)
    moreover have "bounded (M + unat ?d) ?s'"
      unfolding bounded_def
    proof
      fix x assume "x \<in> set (chain_counts ?s')"
      with sub have "x = ?d \<or> x \<in> set (chain_counts s)" by blast
      then show "unat x \<le> M + unat ?d"
      proof
        assume "x = ?d" then show ?thesis by simp
      next
        assume "x \<in> set (chain_counts s)"
        with bd have "unat x \<le> M" by (simp add: bounded_def)
        then show ?thesis by simp
      qed
    qed
    moreover have "valid_upto {} ?s'" by (rule inc_result_valid [OF v8 bl8 oe8])
    moreover have "ordered ?s'" by (rule inc_result_ordered [OF v8 bl8 oe8 ord8 lt])
    moreover have "type ?s' \<noteq> None" using ty by (simp add: inc_result_fields)
    ultimately show ?thesis using res by (simp add: merge_inv_def)
  qed
qed

lemma merge_elements_loop:
  assumes "merge_inv M s" and "count32 c \<noteq> 0"
    and "\<forall>a \<in> set es. element_store other a \<noteq> None"
    and "M + length es * unat (count32 c) < 2 ^ 64"
  shows "\<exists>s'. merge_elements s other c es = Inr s' \<and> merge_inv (M + length es * unat (count32 c)) s'"
  using assms
proof (induction es arbitrary: s M)
  case Nil
  then show ?case by simp
next
  case (Cons a es)
  from Cons.prems(3) obtain e where e: "element_store other a = Some e" by auto
  from Cons.prems(4) have b1: "M + unat (count32 c) < 2 ^ 64" by simp
  from merge_element_step [OF Cons.prems(1,2) b1, of e] obtain s1 where
    s1: "merge_element s e c = Inr s1" "merge_inv (M + unat (count32 c)) s1" by blast
  from Cons.prems(3) have live: "\<forall>a \<in> set es. element_store other a \<noteq> None" by simp
  from Cons.prems(4) have b2: "(M + unat (count32 c)) + length es * unat (count32 c) < 2 ^ 64"
    by simp
  from Cons.IH [OF s1(2) Cons.prems(2) live b2] obtain s' where
    "merge_elements s1 other c es = Inr s'"
    "merge_inv ((M + unat (count32 c)) + length es * unat (count32 c)) s'" by blast
  with e s1(1) show ?case by (simp add: deref_element_def add.assoc)
qed

lemma merge_buckets_loop:
  assumes "merge_inv M s"
    and "\<forall>b \<in> set bs. (case bucket_store other b of None \<Rightarrow> False
         | Some bk \<Rightarrow> count32 (count bk) \<noteq> 0 \<and>
             (\<forall>a \<in> set (elements bk). element_store other a \<noteq> None))"
    and "M + merge_weight other bs < 2 ^ 64"
  shows "\<exists>s'. merge_buckets s other bs = Inr s' \<and> merge_inv (M + merge_weight other bs) s'"
  using assms
proof (induction bs arbitrary: s M)
  case Nil
  then show ?case by (simp add: merge_weight_def)
next
  case (Cons b bs)
  from Cons.prems(2) obtain bk where bk: "bucket_store other b = Some bk"
    "count32 (count bk) \<noteq> 0" "\<forall>a \<in> set (elements bk). element_store other a \<noteq> None"
    by (auto split: option.splits)
  have w: "merge_weight other (b # bs) =
      length (elements bk) * unat (count32 (count bk)) + merge_weight other bs"
    by (simp add: merge_weight_def bucket_elements_def bucket_count_def bk)
  from Cons.prems(3) have b1: "M + length (elements bk) * unat (count32 (count bk)) < 2 ^ 64"
    by (simp add: w)
  from merge_elements_loop [OF Cons.prems(1) bk(2,3) b1] obtain s1 where
    s1: "merge_elements s other (count bk) (elements bk) = Inr s1"
    "merge_inv (M + length (elements bk) * unat (count32 (count bk))) s1" by blast
  from Cons.prems(2) have rest: "\<forall>b \<in> set bs. (case bucket_store other b of None \<Rightarrow> False
         | Some bk \<Rightarrow> count32 (count bk) \<noteq> 0 \<and>
             (\<forall>a \<in> set (elements bk). element_store other a \<noteq> None))" by simp
  from Cons.prems(3) have b2:
    "(M + length (elements bk) * unat (count32 (count bk))) + merge_weight other bs < 2 ^ 64"
    by (simp add: w)
  from Cons.IH [OF s1(2) rest b2] obtain s' where
    "merge_buckets s1 other bs = Inr s'"
    "merge_inv ((M + length (elements bk) * unat (count32 (count bk))) + merge_weight other bs) s'"
    by blast
  with bk(1) s1(1) show ?case by (simp add: deref_bucket_def w add.assoc)
qed

text \<open>
  Claim C10. \<^verbatim>\<open>Merge\<close> asserts \<^verbatim>\<open>size > 0\<close> after its copy loop, before it looks at
  \<^verbatim>\<open>doPrune\<close>. So merging a sketch that has a type into the default-constructed
  receiver (\<open>size = 0\<close>) copies the elements and then fails that assertion, with or without
  pruning. The other sketch is taken as the code leaves one: its buckets and elements are
  live, every count is nonzero in the 32 bits that \<^verbatim>\<open>IncrementCounter\<close> receives, and the
  counts it hands over do not add up to \<open>2^64\<close>. The flag \<open>pruned\<close>, which the default
  constructor does not assign, is arbitrary.
\<close>

theorem Merge_into_default_asserts:
  assumes "type other \<noteq> None" and "mergeable other"
    and "merge_weight other (buckets other) < 2 ^ 64"
  shows "Merge (TopkVal_default\<lparr> pruned := p \<rparr>) other doPrune = Inl (AssertionFailed ''size > 0'')"
proof -
  from assms(1) obtain vt where vt: "type other = Some vt" by auto
  let ?s1 = "TopkVal_default\<lparr> pruned := p, type := Some vt \<rparr>"
  have inv: "merge_inv 0 ?s1"
    by (simp add: merge_inv_def valid_upto_def ordered_def positive_def bounded_def
          chain_counts_def TopkVal_default_def TopkVal_init_def)
  from assms(2) have m: "\<forall>b \<in> set (buckets other). (case bucket_store other b of None \<Rightarrow> False
         | Some bk \<Rightarrow> count32 (count bk) \<noteq> 0 \<and>
             (\<forall>a \<in> set (elements bk). element_store other a \<noteq> None))"
    by (simp add: mergeable_def)
  from assms(3) have b: "0 + merge_weight other (buckets other) < 2 ^ 64" by simp
  from merge_buckets_loop [OF inv m b] obtain s2 where
    s2: "merge_buckets ?s1 other (buckets other) = Inr s2" by blast
  from merge_buckets_fields [OF s2] have "size_cap s2 = 0"
    by (simp add: same_fields_def TopkVal_default_def TopkVal_init_def)
  with s2 vt show ?thesis
    by (simp add: Merge_def Typify_def assert_def TopkVal_default_def TopkVal_init_def)
qed

theorem Merge_into_default_asserts_witness:
  "type sketch_ABCD \<noteq> None \<and> mergeable sketch_ABCD \<and>
   merge_weight sketch_ABCD (buckets sketch_ABCD) < 2 ^ 64 \<and>
   Merge (TopkVal_default\<lparr> pruned := False \<rparr>) sketch_ABCD False =
     Inl (AssertionFailed ''size > 0'') \<and>
   Merge (TopkVal_default\<lparr> pruned := False \<rparr>) sketch_ABCD True =
     Inl (AssertionFailed ''size > 0'')"
proof -
  have t: "type sketch_ABCD \<noteq> None"
    by code_simp
  have m: "mergeable sketch_ABCD"
    by code_simp
  have "merge_weight sketch_ABCD (buckets sketch_ABCD) = 4"
    by code_simp
  then have w: "merge_weight sketch_ABCD (buckets sketch_ABCD) < 2 ^ 64"
    by simp
  from t m w Merge_into_default_asserts [OF t m w, of False False]
    Merge_into_default_asserts [OF t m w, of False True]
  show ?thesis by blast
qed

lemma count32_id: "unat c < 2 ^ 32 \<Longrightarrow> count32 c = c"
  unfolding count32_def
  by (simp add: word_eq_iff_unsigned [where ?'a = nat] unsigned_ucast_eq unsigned_take_bit_eq take_bit_nat_eq_self)

lemma inc_dest_in_result:
  assumes v: "valid_upto {} s" and bl: "buckets s = pre @ cb # post"
    and e: "e \<in> set (bucket_elements s cb)"
  shows "inc_dest s cb post cnt \<in> set (buckets (inc_result s pre cb post e cnt))"
    and "bucket_count (inc_result s pre cb post e cnt) (inc_dest s cb post cnt) = inc_target s cb cnt"
    and "e \<in> set (bucket_elements (inc_result s pre cb post e cnt) (inc_dest s cb post cnt))"
proof -
  let ?t = "inc_target s cb cnt"
  let ?d = "dropWhile (\<lambda>b. bucket_count s b < ?t) post"
  show "inc_dest s cb post cnt \<in> set (buckets (inc_result s pre cb post e cnt))"
  proof (cases "reuse s ?t post")
    case True
    then have "?d \<noteq> []" by (simp add: reuse_def)
    then have "hd ?d \<in> set ?d" by (rule hd_in_set)
    then have "hd ?d \<in> set post" by (rule set_dropWhileD)
    with True show ?thesis
      unfolding inc_result_buckets [OF v bl e] inc_dest_def by simp
  next
    case False
    then show ?thesis
      unfolding inc_result_buckets [OF v bl e] inc_dest_def by simp
  qed
  show "bucket_count (inc_result s pre cb post e cnt) (inc_dest s cb post cnt) = ?t"
    using inc_dest_neq(1) [OF v bl, of cnt] by (simp add: inc_result_bucket_count [OF v bl e])
  show "e \<in> set (bucket_elements (inc_result s pre cb post e cnt) (inc_dest s cb post cnt))"
    using inc_dest_neq(1) [OF v bl, of cnt]
    by (simp add: bucket_elements_def [of "inc_result s pre cb post e cnt"] inc_result_bucket_store [OF v bl e])
qed

text \<open>
  Claim C4, as stated: a source element whose key is absent from the receiver ends the merge
  step with epsilon 0. It does not: \<^verbatim>\<open>olde->epsilon += e->epsilon\<close> stands after the
  \<^verbatim>\<open>if\<close>, so it runs for a new element too. The sketch of capacity 1 after the stream
  A, B holds B with count 2 and epsilon 1; merged into an empty sketch of capacity 3, B
  arrives with epsilon 1.
\<close>

theorem Merge_new_element_epsilon_counterexample:
  "Lookup (TopkVal_init 3) (HashKey (StringVal ''B'')) = None \<and>
   chain_view (sketch_of 1 [StringVal ''A'', StringVal ''B'']) = [(2, [(StringVal ''B'', 1)])] \<and>
   observe (Merge (TopkVal_init 3) (sketch_of 1 [StringVal ''A'', StringVal ''B'']) False) =
     Inr ([(2, [(StringVal ''B'', 1)])], 1, False)"
proof -
  have 1: "Lookup (TopkVal_init 3) (HashKey (StringVal ''B'')) = None"
    by code_simp
  have 2: "chain_view (sketch_of 1 [StringVal ''A'', StringVal ''B'']) = [(2, [(StringVal ''B'', 1)])]"
    by code_simp
  have 3: "observe (Merge (TopkVal_init 3) (sketch_of 1 [StringVal ''A'', StringVal ''B'']) False) =
     Inr ([(2, [(StringVal ''B'', 1)])], 1, False)"
    by code_simp
  from 1 2 3 show ?thesis by blast
qed

text \<open>
  Claim C4, amended. One step of the copy loop of \<^verbatim>\<open>Merge\<close>, for a source element \<open>e\<close>
  in a source bucket of count \<open>c\<close> with \<open>0 < c < 2^32\<close>, on a receiver that has a type, is
  well-formed and ordered, with counts positive and at most \<open>M\<close>, where \<open>M + c < 2^64\<close>:
  the step returns and keeps these properties (with \<open>M + c\<close>). If the key of \<open>e\<close> is in the
  receiver, that element gets \<open>e\<close>'s epsilon added to its own and moves from its bucket
  \<open>cb\<close> to a bucket of the chain of count \<open>count cb + c\<close>; \<open>numElements\<close> is unchanged.
  If the key is absent, a new element with the value of \<open>e\<close> is registered under the key,
  \<open>numElements\<close> grows by one, the element ends in a bucket of the chain of count \<open>c\<close>, and
  its epsilon is the epsilon of \<open>e\<close> (0 plus the source epsilon).
\<close>

theorem Merge_element_epsilon:
  assumes inv: "merge_inv M s" and c0: "c \<noteq> 0" and c32: "unat c < 2 ^ 32"
    and bound: "M + unat c < 2 ^ 64"
  shows "\<exists>s'. merge_element s e c = Inr s' \<and> merge_inv (M + unat c) s' \<and>
     (case Lookup s (HashKey (val e)) of
        Some olde \<Rightarrow>
          Lookup s' (HashKey (val e)) = Some olde \<and> numElements s' = numElements s \<and>
          (\<exists>el cb dest. element_store s olde = Some el \<and> parent el = Some cb \<and>
             element_store s' olde =
               Some (el\<lparr> epsilon := epsilon el + epsilon e, parent := Some dest \<rparr>) \<and>
             dest \<in> set (buckets s') \<and> olde \<in> set (bucket_elements s' dest) \<and>
             bucket_count s' dest = bucket_count s cb + c)
      | None \<Rightarrow>
          numElements s' = numElements s + 1 \<and>
          (\<exists>new dest. Lookup s' (HashKey (val e)) = Some new \<and> new \<notin> set (all_elements s) \<and>
             element_store s' new =
               Some \<lparr> epsilon = epsilon e, val = val e, parent = Some dest \<rparr> \<and>
             dest \<in> set (buckets s') \<and> new \<in> set (bucket_elements s' dest) \<and>
             bucket_count s' dest = c))"
proof -
  have cc: "count32 c = c" by (rule count32_id [OF c32])
  from inv have v: "valid_upto {} s" and ty: "type s \<noteq> None" and pos: "positive s"
    by (simp_all add: merge_inv_def)
  have tgt: "inc_target s' cb (ucast c) = bucket_count s' cb + c" for s' cb
    using cc by (simp add: inc_target_def count32_def)
  from merge_element_step [OF inv, of c e] c0 bound cc
  obtain s' where res: "merge_element s e c = Inr s'" and inv': "merge_inv (M + unat c) s'"
    by auto
  show ?thesis
  proof (cases "Lookup s (HashKey (val e))")
    case (Some olde)
    from Lookup_in_chain [OF v Some] obtain pre cb post where
      bl: "buckets s = pre @ cb # post" and oe: "olde \<in> set (bucket_elements s cb)" by blast
    have cbm: "cb \<in> set (buckets s)" by (simp add: bl)
    from valid_upto_element [OF v cbm oe] obtain el where
      el: "element_store s olde = Some el" and par: "parent el = Some cb"
      by (auto simp: element_ok_def split: option.splits)
    let ?s8 = "set_eps s olde (\<lambda>x. x + epsilon e)"
    let ?s' = "inc_result ?s8 pre cb post olde (ucast c)"
    let ?dest = "inc_dest ?s8 cb post (ucast c)"
    have v8: "valid_upto {} ?s8" using v by simp
    have bl8: "buckets ?s8 = pre @ cb # post" by (simp add: bl)
    have oe8: "olde \<in> set (bucket_elements ?s8 cb)" using oe by simp
    have "merge_element s e c = Inr ?s'"
      unfolding merge_element_old_eq [OF Some ty, of c] using el
      by (simp add: merge_element_old_eq [OF Some ty] IncrementCounter_inc_result [OF v8 bl8 oe8])
    with res have s': "s' = ?s'" by simp
    have 1: "Lookup ?s' (HashKey (val e)) = Some olde"
      using Some by (simp add: Lookup_def inc_result_fields)
    have 2: "numElements ?s' = numElements s" by (simp add: inc_result_fields)
    have 3: "element_store ?s' olde =
        Some (el\<lparr> epsilon := epsilon el + epsilon e, parent := Some ?dest \<rparr>)"
      using el by (simp add: inc_result_fields)
    note d = inc_dest_in_result [OF v8 bl8 oe8, of "ucast c"]
    have 4: "bucket_count ?s' ?dest = bucket_count s cb + c"
      unfolding d(2) tgt by simp
    from 1 2 3 4 d(1) d(3) el par have
      "Lookup ?s' (HashKey (val e)) = Some olde \<and> numElements ?s' = numElements s \<and>
          (\<exists>el cb dest. element_store s olde = Some el \<and> parent el = Some cb \<and>
             element_store ?s' olde =
               Some (el\<lparr> epsilon := epsilon el + epsilon e, parent := Some dest \<rparr>) \<and>
             dest \<in> set (buckets ?s') \<and> olde \<in> set (bucket_elements ?s' dest) \<and>
             bucket_count ?s' dest = bucket_count s cb + c)"
      by blast
    with res inv' Some s' show ?thesis by simp
  next
    case None
    let ?n = "next_addr s"
    let ?b = "Suc ?n"
    let ?key = "HashKey (val e)"
    let ?s1 = "alloc_element s (val e) 0"
    let ?s3 = "with_new_bucket ?s1 0 (?b # buckets s)"
    let ?s7 = "(attach_element ?s3 ?n ?b ?key)\<lparr> numElements := numElements s + 1 \<rparr>"
    let ?s8 = "set_eps ?s7 ?n (\<lambda>x. x + epsilon e)"
    let ?s' = "inc_result ?s8 [] ?b (buckets s) ?n (ucast c)"
    let ?dest = "inc_dest ?s8 ?b (buckets s) (ucast c)"
    have front: "buckets s = [] \<or> (\<exists>bk. bucket_store s (hd (buckets s)) = Some bk \<and> 0 < count bk)"
    proof (cases "buckets s")
      case Nil then show ?thesis by simp
    next
      case (Cons a as)
      with v obtain bk where bk: "bucket_store s a = Some bk" by (auto simp: valid_upto_def)
      from pos Cons have "bucket_count s a \<noteq> 0" by (simp add: positive_def chain_counts_def)
      with bk have "0 < count bk" by (simp add: bucket_count_def word_neq_0_conv)
      with Cons bk show ?thesis by simp
    qed
    have absent: "map_of (elementDict s) ?key = None" using None by (simp add: Lookup_def)
    have v1: "valid_upto {} ?s1" by (rule valid_upto_alloc [OF v])
    have "buckets ?s1 = [] @ buckets s" by simp
    from valid_upto_new [OF v1 this, of 0] ty have v3: "valid_upto {?b} ?s3" by simp
    have "valid_upto ({?b} - {?b}) (attach_element ?s3 ?n ?b ?key)"
      by (rule valid_upto_attach [OF v3, where el = "\<lparr> epsilon = 0, val = val e, parent = None \<rparr>"])
         (use absent in simp_all)
    then have v8: "valid_upto {} ?s8" by simp
    have bl8: "buckets ?s8 = [] @ ?b # buckets s" by simp
    have be8: "bucket_elements ?s8 ?b = [?n]"
      by (simp add: bucket_elements_attach bucket_elements_new)
    have oe8: "?n \<in> set (bucket_elements ?s8 ?b)" unfolding be8 by simp
    have bc8: "bucket_count ?s8 ?b = 0" by (simp add: bucket_count_new)
    have "merge_element s e c = Inr ?s'"
      unfolding merge_element_new_eq [OF None ty front]
      by (rule IncrementCounter_inc_result [OF v8 bl8 oe8])
    with res have s': "s' = ?s'" by simp
    have fresh: "?n \<notin> set (all_elements s)"
    proof
      assume "?n \<in> set (all_elements s)"
      then obtain b where "b \<in> set (buckets s)" "?n \<in> set (bucket_elements s b)"
        by (auto simp: all_elements_def)
      from valid_upto_element [OF v this] show False by (simp add: element_ok_def)
    qed
    have 1: "Lookup ?s' ?key = Some ?n"
      by (simp add: Lookup_def inc_result_fields update_conv')
    have 2: "numElements ?s' = numElements s + 1" by (simp add: inc_result_fields)
    have 3: "element_store ?s' ?n = Some \<lparr> epsilon = epsilon e, val = val e, parent = Some ?dest \<rparr>"
      by (simp add: inc_result_fields)
    note d = inc_dest_in_result [OF v8 bl8 oe8, of "ucast c"]
    have 4: "bucket_count ?s' ?dest = c"
      unfolding d(2) tgt bc8 by simp
    from 1 2 3 4 d(1) d(3) fresh have
      "numElements ?s' = numElements s + 1 \<and>
          (\<exists>new dest. Lookup ?s' (HashKey (val e)) = Some new \<and> new \<notin> set (all_elements s) \<and>
             element_store ?s' new =
               Some \<lparr> epsilon = epsilon e, val = val e, parent = Some dest \<rparr> \<and>
             dest \<in> set (buckets ?s') \<and> new \<in> set (bucket_elements ?s' dest) \<and>
             bucket_count ?s' dest = c)"
      by blast
    with res inv' None s' show ?thesis by simp
  qed
qed

theorem Merge_element_epsilon_witness:
  "merge_inv 2 sketch_AAB \<and> (2 :: 64 word) \<noteq> 0 \<and> unat (2 :: 64 word) < 2 ^ 32 \<and>
   2 + unat (2 :: 64 word) < (2 :: nat) ^ 64 \<and>
   \<not> isl (merge_element sketch_AAB \<lparr> epsilon = 1, val = StringVal ''D'', parent = None \<rparr> 2) \<and>
   chain_view sketch_AAB = [(1, [(StringVal ''B'', 0)]), (2, [(StringVal ''A'', 0)])] \<and>
   observe (merge_element sketch_AAB \<lparr> epsilon = 1, val = StringVal ''D'', parent = None \<rparr> 2) =
     Inr ([(1, [(StringVal ''B'', 0)]), (2, [(StringVal ''A'', 0), (StringVal ''D'', 1)])], 3, False) \<and>
   observe (merge_element sketch_AAB \<lparr> epsilon = 1, val = StringVal ''B'', parent = None \<rparr> 2) =
     Inr ([(2, [(StringVal ''A'', 0)]), (3, [(StringVal ''B'', 1)])], 2, False)"
proof -
  have i: "merge_inv 2 sketch_AAB" by code_simp
  have c0: "(2 :: 64 word) \<noteq> 0" by simp
  have c32: "unat (2 :: 64 word) < 2 ^ 32" by simp
  have b: "2 + unat (2 :: 64 word) < (2 :: nat) ^ 64" by simp
  from Merge_element_epsilon [OF i c0 c32 b,
      of "\<lparr> epsilon = 1, val = StringVal ''D'', parent = None \<rparr>"]
  obtain s' where
    "merge_element sketch_AAB \<lparr> epsilon = 1, val = StringVal ''D'', parent = None \<rparr> 2 = Inr s'"
    by blast
  then have r: "\<not> isl (merge_element sketch_AAB \<lparr> epsilon = 1, val = StringVal ''D'', parent = None \<rparr> 2)"
    by simp
  have v0: "chain_view sketch_AAB = [(1, [(StringVal ''B'', 0)]), (2, [(StringVal ''A'', 0)])]"
    by code_simp
  have v1: "observe (merge_element sketch_AAB \<lparr> epsilon = 1, val = StringVal ''D'', parent = None \<rparr> 2) =
     Inr ([(1, [(StringVal ''B'', 0)]), (2, [(StringVal ''A'', 0), (StringVal ''D'', 1)])], 3, False)"
    by code_simp
  have v2: "observe (merge_element sketch_AAB \<lparr> epsilon = 1, val = StringVal ''B'', parent = None \<rparr> 2) =
     Inr ([(2, [(StringVal ''A'', 0)]), (3, [(StringVal ''B'', 1)])], 2, False)"
    by code_simp
  from i c0 c32 b r v0 v1 v2 show ?thesis by blast
qed

subsection \<open>Deserialization\<close>

lemma unserialize_elements_Suc:
  assumes "bucket_store s b \<noteq> None" "ToVal br d (type s) = Some v"
  shows "unserialize_elements br b (Suc j) s i (BCount eps # d # rest') =
     (if type s = None then Inl (Undefined ''hash is null'')
      else if Lookup s (HashKey v) \<noteq> None
        then Inl (AssertionFailed ''elementDict->Lookup(key) == nullptr'')
      else unserialize_elements br b j
             (attach_element (alloc_element s v eps) (next_addr s) b (HashKey v)) (i + 1) rest')"
  using assms
  apply (auto simp: new_Element_def set_epsilon_def deref_element_def set_parent_def
      set_elements_def deref_bucket_def GetHash_def assert_def Insert_def Lookup_def
      attach_element_def alloc_element_def)
  apply (rule arg_cong [where f = "\<lambda>s. unserialize_elements _ _ _ s _ _"], simp)
  done

lemma loading_load:
  assumes l: "loading seen s" and b: "b \<in> set (buckets s)"
  shows "loading (v # seen) (attach_element (alloc_element s v eps) (next_addr s) b (HashKey v))"
  using assms
  unfolding loading_def
  by (auto simp: bucket_elements_attach Lookup_def update_conv' attach_element_def
        alloc_element_def less_Suc_eq bucket_elements_def split: option.splits if_splits)

lemma entries_fresh:
  "\<forall>e \<in> set es. e \<noteq> n \<Longrightarrow>
   concat (map (\<lambda>e. case (if e = n then x else h e) of None \<Rightarrow> [] | Some el \<Rightarrow> [(val el, epsilon el)]) es) =
   concat (map (\<lambda>e. case h e of None \<Rightarrow> [] | Some el \<Rightarrow> [(val el, epsilon el)]) es)"
  by (induction es) auto

lemma bucket_view_load:
  assumes l: "loading seen s" and b: "b \<in> set (buckets s)" and b': "b' \<in> set (buckets s)"
  shows "bucket_view (attach_element (alloc_element s v eps) (next_addr s) b (HashKey v)) b' =
     (if b' = b then (fst (bucket_view s b), snd (bucket_view s b) @ [(v, eps)])
      else bucket_view s b')"
proof -
  from l b' have "bucket_store s b' \<noteq> None" by (simp add: loading_def)
  then obtain bk' where bk': "bucket_store s b' = Some bk'" by blast
  from l b' have "\<forall>e \<in> set (bucket_elements s b'). e < next_addr s"
    by (simp add: loading_def)
  with bk' have lt: "\<forall>e \<in> set (elements bk'). e \<noteq> next_addr s"
    by (auto simp: bucket_elements_def)
  show ?thesis
  proof (cases "b' = b")
    case True
    with bk' lt show ?thesis
      by (simp add: bucket_view_def attach_element_def alloc_element_def entries_fresh)
  next
    case False
    with bk' lt show ?thesis
      by (simp add: bucket_view_def attach_element_def alloc_element_def entries_fresh)
  qed
qed

lemma unserialize_elements_parse:
  assumes "loading seen s" and "b \<in> set (buckets s)"
  shows "case parse_elements br (type s) seen j rest of
       Parsed (es, seen', r) \<Rightarrow>
         (\<exists>s'. unserialize_elements br b j s i rest = Inr (s', Some (i + of_nat j, r)) \<and>
            loading seen' s' \<and> buckets s' = buckets s \<and>
            (\<forall>b' \<in> set (buckets s). bucket_view s' b' =
               (if b' = b then (fst (bucket_view s b), snd (bucket_view s b) @ es)
                else bucket_view s b')) \<and>
            size_cap s' = size_cap s \<and> numElements s' = numElements s \<and>
            pruned s' = pruned s \<and> type s' = type s)
     | Rejected \<Rightarrow> (\<exists>s'. unserialize_elements br b j s i rest = Inr (s', None))
     | Aborted \<Rightarrow> isl (unserialize_elements br b j s i rest)"
  using assms
proof (induction j arbitrary: seen s i rest)
  case 0
  then show ?case by simp
next
  case (Suc j)
  from Suc.prems have live: "bucket_store s b \<noteq> None" by (auto simp: loading_def)
  show ?case
  proof (cases "\<exists>eps d rest'. rest = BCount eps # d # rest'")
    case False
    then have "parse_elements br (type s) seen (Suc j) rest = Rejected"
      by (auto split: list.splits BrokerData.splits)
    moreover from False have "unserialize_elements br b (Suc j) s i rest = Inr (s, None)"
      by (auto split: list.splits BrokerData.splits)
    ultimately show ?thesis by simp
  next
    case True
    then obtain eps d rest' where rest: "rest = BCount eps # d # rest'" by blast
    show ?thesis
    proof (cases "ToVal br d (type s)")
      case None
      then show ?thesis by (simp add: rest)
    next
      case (Some v)
      let ?s1 = "attach_element (alloc_element s v eps) (next_addr s) b (HashKey v)"
      note step = unserialize_elements_Suc [OF live Some, of j i eps rest']
      show ?thesis
      proof (cases "type s = None \<or> v \<in> set seen")
        case True
        with Suc.prems(1) have "type s = None \<or> Lookup s (HashKey v) \<noteq> None"
          by (auto simp: loading_def)
        with True Some show ?thesis
          unfolding rest step by auto
      next
        case False
        with Suc.prems(1) have ty: "type s \<noteq> None" and lk: "Lookup s (HashKey v) = None"
          by (auto simp: loading_def)
        have l1: "loading (v # seen) ?s1" by (rule loading_load [OF Suc.prems])
        have b1: "b \<in> set (buckets ?s1)" using Suc.prems(2) by simp
        have t1: "type ?s1 = type s" by simp
        have u: "unserialize_elements br b (Suc j) s i rest =
            unserialize_elements br b j ?s1 (i + 1) rest'"
          unfolding rest step by (simp add: ty lk)
        have p: "parse_elements br (type s) seen (Suc j) rest =
            (case parse_elements br (type s) (v # seen) j rest' of
               Parsed (es, seen', r) \<Rightarrow> Parsed ((v, eps) # es, seen', r)
             | Aborted \<Rightarrow> Aborted
             | Rejected \<Rightarrow> Rejected)"
          using False Some by (auto simp: rest)
        note IH = Suc.IH [OF l1 b1, of "i + 1" rest', unfolded t1]
        show ?thesis
        proof (cases "parse_elements br (type s) (v # seen) j rest'")
          case Aborted
          with IH show ?thesis unfolding p u by simp
        next
          case Rejected
          with IH show ?thesis unfolding p u by simp
        next
          case (Parsed x)
          obtain es seen' r where x: "x = (es, seen', r)" by (cases x)
          from IH Parsed x obtain s' where
            r: "unserialize_elements br b j ?s1 (i + 1) rest' = Inr (s', Some (i + 1 + of_nat j, r))"
            and l': "loading seen' s'" and bs: "buckets s' = buckets ?s1"
            and bv: "\<forall>b' \<in> set (buckets ?s1). bucket_view s' b' =
               (if b' = b then (fst (bucket_view ?s1 b), snd (bucket_view ?s1 b) @ es)
                else bucket_view ?s1 b')"
            and f: "size_cap s' = size_cap ?s1" "numElements s' = numElements ?s1"
              "pruned s' = pruned ?s1" "type s' = type ?s1"
            by auto
          have bv': "\<forall>b' \<in> set (buckets s). bucket_view s' b' =
               (if b' = b then (fst (bucket_view s b), snd (bucket_view s b) @ (v, eps) # es)
                else bucket_view s b')"
          proof
            fix b' assume b': "b' \<in> set (buckets s)"
            then have "b' \<in> set (buckets ?s1)" by simp
            with bv have "bucket_view s' b' =
               (if b' = b then (fst (bucket_view ?s1 b), snd (bucket_view ?s1 b) @ es)
                else bucket_view ?s1 b')" by blast
            then show "bucket_view s' b' =
               (if b' = b then (fst (bucket_view s b), snd (bucket_view s b) @ (v, eps) # es)
                else bucket_view s b')"
              unfolding bucket_view_load [OF Suc.prems(1) Suc.prems(2) b']
                bucket_view_load [OF Suc.prems(1) Suc.prems(2) Suc.prems(2)]
              by simp
          qed
          have "unserialize_elements br b (Suc j) s i rest = Inr (s', Some (i + of_nat (Suc j), r))"
            unfolding u r by (simp add: add.assoc add.commute)
          with l' bs bv' f show ?thesis
            unfolding p Parsed x by simp
        qed
      qed
    qed
  qed
qed

lemma unserialize_buckets_step:
  "unserialize_buckets br s i (BCount k # BCount cnt # rest') =
     (if i < numElements s
      then (case unserialize_elements br (next_addr s) (unat k)
                   (with_new_bucket s cnt (buckets s @ [next_addr s])) i rest' of
              Inl err \<Rightarrow> Inl err
            | Inr (s3, None) \<Rightarrow> Inr (False, s3)
            | Inr (s3, Some (i', rest'')) \<Rightarrow> unserialize_buckets br s3 i' rest'')
      else Inr (False, s))"
  apply (subst unserialize_buckets.simps)
  apply (simp add: new_Bucket_def)
  apply (rule impI)
  apply (rule arg_cong [where f = "\<lambda>s. case_sum _ _ (unserialize_elements _ _ _ s _ _)"])
  apply (simp add: with_new_bucket_def)
  done

lemma loading_new_bucket:
  assumes "loading seen s"
  shows "loading seen (with_new_bucket s cnt (buckets s @ [next_addr s]))"
  using assms unfolding loading_def
  by (auto simp: bucket_elements_new Lookup_def less_Suc_eq)

lemma bucket_view_new_bucket:
  assumes "loading seen s"
  shows "bucket_view (with_new_bucket s cnt bl) b =
     (if b = next_addr s then (cnt, []) else bucket_view s b)"
  by (simp add: bucket_view_def split: option.splits)

lemma unserialize_buckets_parse:
  assumes "loading seen s"
  shows "case parse_buckets br (type s) (numElements s) seen i rest of
       Parsed recs \<Rightarrow>
         (\<exists>s'. unserialize_buckets br s i rest = Inr (True, s') \<and>
            chain_view s' = chain_view s @ recs \<and>
            size_cap s' = size_cap s \<and> numElements s' = numElements s \<and>
            pruned s' = pruned s \<and> type s' = type s)
     | Rejected \<Rightarrow> (\<exists>s'. unserialize_buckets br s i rest = Inr (False, s'))
     | Aborted \<Rightarrow> isl (unserialize_buckets br s i rest)"
  using assms
proof (induction "length rest" arbitrary: seen s i rest rule: less_induct)
  case less
  note l = less.prems
  show ?case
  proof (cases "i < numElements s")
    case False
    then have "unserialize_buckets br s i rest = Inr (rest = [], s)"
      by (subst unserialize_buckets.simps) simp
    moreover from False have "parse_buckets br (type s) (numElements s) seen i rest =
        (if rest = [] then Parsed [] else Rejected)"
      by (subst parse_buckets.simps) simp
    ultimately show ?thesis by (cases "rest = []") auto
  next
    case lt: True
    show ?thesis
    proof (cases "\<exists>k cnt rest'. rest = BCount k # BCount cnt # rest'")
      case False
      with lt have "parse_buckets br (type s) (numElements s) seen i rest = Rejected"
        apply (subst parse_buckets.simps)
        apply (auto split: list.splits BrokerData.splits)
        done
      moreover from False lt have "unserialize_buckets br s i rest = Inr (False, s)"
        apply (subst unserialize_buckets.simps)
        apply (auto split: list.splits BrokerData.splits)
        done
      ultimately show ?thesis by simp
    next
      case True
      then obtain k cnt rest' where rest: "rest = BCount k # BCount cnt # rest'" by blast
      let ?b = "next_addr s"
      let ?s2 = "with_new_bucket s cnt (buckets s @ [?b])"
      have l2: "loading seen ?s2" by (rule loading_new_bucket [OF l])
      have b2: "?b \<in> set (buckets ?s2)" by simp
      have t2: "type ?s2 = type s" by simp
      note E = unserialize_elements_parse [OF l2 b2, where br = br and j = "unat k" and rest = rest'
          and i = i, unfolded t2]
      have p: "parse_buckets br (type s) (numElements s) seen i rest =
          (case parse_elements br (type s) seen (unat k) rest' of
             Parsed (es, seen', r) \<Rightarrow>
               (case parse_buckets br (type s) (numElements s) seen' (i + k) r of
                  Parsed recs \<Rightarrow> Parsed ((cnt, es) # recs)
                | Aborted \<Rightarrow> Aborted
                | Rejected \<Rightarrow> Rejected)
           | Aborted \<Rightarrow> Aborted
           | Rejected \<Rightarrow> Rejected)"
        unfolding rest using lt
        apply (subst parse_buckets.simps)
        apply simp
        done
      have u: "unserialize_buckets br s i rest =
          (case unserialize_elements br ?b (unat k) ?s2 i rest' of
              Inl err \<Rightarrow> Inl err
            | Inr (s3, None) \<Rightarrow> Inr (False, s3)
            | Inr (s3, Some (i', rest'')) \<Rightarrow> unserialize_buckets br s3 i' rest'')"
        unfolding rest unserialize_buckets_step using lt by simp
      show ?thesis
      proof (cases "parse_elements br (type s) seen (unat k) rest'")
        case Aborted
        with E show ?thesis unfolding p u by (auto split: sum.splits)
      next
        case Rejected
        with E show ?thesis unfolding p u by auto
      next
        case (Parsed x)
        obtain es seen' r where x: "x = (es, seen', r)" by (cases x)
        from E Parsed x obtain s3 where
          r3: "unserialize_elements br ?b (unat k) ?s2 i rest' = Inr (s3, Some (i + k, r))"
          and l3: "loading seen' s3" and bs3: "buckets s3 = buckets s @ [?b]"
          and bv: "\<forall>b' \<in> set (buckets ?s2). bucket_view s3 b' =
               (if b' = ?b then (fst (bucket_view ?s2 ?b), snd (bucket_view ?s2 ?b) @ es)
                else bucket_view ?s2 b')"
          and f: "size_cap s3 = size_cap s" "numElements s3 = numElements s"
            "pruned s3 = pruned s" "type s3 = type s"
          by auto
        from parse_elements_length [OF Parsed [unfolded x]] have len: "length r < length rest"
          by (simp add: rest)
        have fresh: "?b \<notin> set (buckets s)" using l by (auto simp: loading_def)
        have cv3: "chain_view s3 = chain_view s @ [(cnt, es)]"
        proof -
          have "map (bucket_view s3) (buckets s) = map (bucket_view s) (buckets s)"
          proof (rule map_cong [OF refl])
            fix b' assume b': "b' \<in> set (buckets s)"
            with fresh have ne: "b' \<noteq> ?b" by blast
            from b' have "b' \<in> set (buckets ?s2)" by simp
            with bv have "bucket_view s3 b' =
               (if b' = ?b then (fst (bucket_view ?s2 ?b), snd (bucket_view ?s2 ?b) @ es)
                else bucket_view ?s2 b')" by blast
            with ne show "bucket_view s3 b' = bucket_view s b'"
              by (simp add: bucket_view_new_bucket [OF l])
          qed
          moreover from bv b2 have "bucket_view s3 ?b = (cnt, es)"
            by (simp add: bucket_view_new_bucket [OF l])
          ultimately show ?thesis by (simp add: chain_view_def bs3)
        qed
        note IH = less.hyps [OF len l3, of "i + k"]
        have u': "unserialize_buckets br s i rest = unserialize_buckets br s3 (i + k) r"
          unfolding u r3 by simp
        have p': "parse_buckets br (type s) (numElements s) seen i rest =
            (case parse_buckets br (type s3) (numElements s3) seen' (i + k) r of
                  Parsed recs \<Rightarrow> Parsed ((cnt, es) # recs)
                | Aborted \<Rightarrow> Aborted
                | Rejected \<Rightarrow> Rejected)"
          unfolding p Parsed x f by simp
        show ?thesis
        proof (cases "parse_buckets br (type s3) (numElements s3) seen' (i + k) r")
          case Aborted
          with IH show ?thesis unfolding p' u' by simp
        next
          case Rejected
          with IH show ?thesis unfolding p' u' by simp
        next
          case (Parsed recs)
          with IH obtain s' where
            "unserialize_buckets br s3 (i + k) r = Inr (True, s')"
            "chain_view s' = chain_view s3 @ recs"
            "size_cap s' = size_cap s3" "numElements s' = numElements s3"
            "pruned s' = pruned s3" "type s' = type s3"
            by auto
          with f cv3 show ?thesis unfolding p' u' Parsed by simp
        qed
      qed
    qed
  qed
qed

lemma loading_fresh:
  "buckets s = [] \<Longrightarrow> elementDict s = [] \<Longrightarrow> loading [] s"
  by (simp add: loading_def Lookup_def)

lemma outcome_unserialize_buckets:
  assumes "buckets s = []" "elementDict s = []"
  shows "outcome (unserialize_buckets br s 0 rest) =
     map_parse (\<lambda>recs. (size_cap s, numElements s, pruned s, type s, recs))
       (parse_buckets br (type s) (numElements s) [] 0 rest)"
proof -
  note P = unserialize_buckets_parse [OF loading_fresh [OF assms], of br 0 rest]
  show ?thesis
  proof (cases "parse_buckets br (type s) (numElements s) [] 0 rest")
    case Aborted
    with P show ?thesis by (auto simp: outcome_def split: sum.splits)
  next
    case Rejected
    with P show ?thesis by (auto simp: outcome_def)
  next
    case (Parsed recs)
    with P show ?thesis using assms by (auto simp: outcome_def chain_view_def)
  qed
qed

lemma DoUnserialize_outcome:
  "outcome (DoUnserialize br TopkVal_default data) = payload_sketch br data"
proof (cases "\<exists>cap n p t rest. data = BList (BCount cap # BCount n # BBool p # t # rest)")
  case False
  then have "DoUnserialize br TopkVal_default data = Inr (False, TopkVal_default)"
    unfolding DoUnserialize_def
    by (auto split: BrokerData.splits list.splits)
  moreover from False have "payload_sketch br data = Rejected"
    unfolding payload_sketch_def
    by (auto split: BrokerData.splits list.splits)
  ultimately show ?thesis by (simp add: outcome_def)
next
  case True
  then obtain cap n p t rest where
    data: "data = BList (BCount cap # BCount n # BBool p # t # rest)" by blast
  let ?s1 = "TopkVal_default\<lparr> size_cap := cap, numElements := n, pruned := p \<rparr>"
  have e1: "buckets ?s1 = []" "elementDict ?s1 = []"
    by (simp_all add: TopkVal_default_def TopkVal_init_def)
  have t1: "type ?s1 = None" by (simp add: TopkVal_default_def TopkVal_init_def)
  show ?thesis
  proof (cases "t = BNil")
    case True
    then show ?thesis
      unfolding data
      using outcome_unserialize_buckets [OF e1, of br rest]
      by (simp add: DoUnserialize_def payload_sketch_def t1)
  next
    case nn: False
    show ?thesis
    proof (cases "UnserializeType br t")
      case None
      with nn show ?thesis
        unfolding data by (simp add: DoUnserialize_def payload_sketch_def outcome_def)
    next
      case (Some ty)
      let ?s2 = "?s1\<lparr> type := Some ty \<rparr>"
      have ty: "Typify ?s1 ty = Inr ?s2" by (simp add: Typify_def assert_def t1)
      have e2: "buckets ?s2 = []" "elementDict ?s2 = []" using e1 by simp_all
      from nn Some show ?thesis
        unfolding data
        using outcome_unserialize_buckets [OF e2, of br rest]
        by (simp add: DoUnserialize_def payload_sketch_def ty)
    qed
  qed
qed

text \<open>
  Claim C8. \<^verbatim>\<open>DoUnserialize\<close> counts the entries it reads in \<open>i\<close> and goes on reading
  bucket records while \<open>i < numElements\<close>, so a payload with fewer entries than its header
  announces is rejected. But the counter is compared only between two bucket records: a
  payload that announces one element and carries one record of two entries is accepted,
  and the sketch it leaves has \<open>numElements = 1\<close> and two elements. The number of entries
  read then differs from the \<open>num_elements\<close> field, against (b) of the claim, and against
  the code's own \<^verbatim>\<open>assert(i == numElements)\<close> in \<^verbatim>\<open>DoSerialize\<close>, which fails on the
  sketch just accepted.
\<close>

theorem DoUnserialize_overshoot:
  "outcome (DoUnserialize example_Broker TopkVal_default
     (BList [BCount 3, BCount 1, BBool False, BCount 3,
             BCount 2, BCount 5, BCount 0, BString ''a'', BCount 0, BString ''b''])) =
     Parsed (3, 1, False, Some TYPE_STRING, [(5, [(StringVal ''a'', 0), (StringVal ''b'', 0)])]) \<and>
   DoSerialize example_Broker (snd (projr (DoUnserialize example_Broker TopkVal_default
     (BList [BCount 3, BCount 1, BBool False, BCount 3,
             BCount 2, BCount 5, BCount 0, BString ''a'', BCount 0, BString ''b''])))) =
     Inl (AssertionFailed ''i == numElements'') \<and>
   outcome (DoUnserialize example_Broker TopkVal_default
     (BList [BCount 3, BCount 2, BBool False, BCount 3,
             BCount 1, BCount 5, BCount 0, BString ''a''])) = Rejected"
proof -
  have 1: "outcome (DoUnserialize example_Broker TopkVal_default
     (BList [BCount 3, BCount 1, BBool False, BCount 3,
             BCount 2, BCount 5, BCount 0, BString ''a'', BCount 0, BString ''b''])) =
     Parsed (3, 1, False, Some TYPE_STRING, [(5, [(StringVal ''a'', 0), (StringVal ''b'', 0)])])"
    by code_simp
  have 2: "DoSerialize example_Broker (snd (projr (DoUnserialize example_Broker TopkVal_default
     (BList [BCount 3, BCount 1, BBool False, BCount 3,
             BCount 2, BCount 5, BCount 0, BString ''a'', BCount 0, BString ''b''])))) =
     Inl (AssertionFailed ''i == numElements'')"
    by code_simp
  have 3: "outcome (DoUnserialize example_Broker TopkVal_default
     (BList [BCount 3, BCount 2, BBool False, BCount 3,
             BCount 1, BCount 5, BCount 0, BString ''a''])) = Rejected"
    by code_simp
  from 1 2 3 show ?thesis by blast
qed

subsection \<open>Serialization round trip\<close>

lemma parse_elements_encode:
  assumes "ty \<noteq> None" and "\<forall>ve \<in> set ves. convertible br ty (fst ve)"
    and "distinct (map fst ves)" and "fst ` set ves \<inter> set seen = {}"
  shows "\<exists>seen'. parse_elements br ty seen (length ves) (encode_entries br ves @ tail) =
            Parsed (ves, seen', tail) \<and> set seen' = set seen \<union> fst ` set ves"
  using assms
proof (induction ves arbitrary: seen)
  case Nil
  then show ?case by (simp add: encode_entries_def)
next
  case (Cons ve ves)
  obtain v eps where ve: "ve = (v, eps)" by (cases ve)
  from Cons.prems(2) ve obtain d where d: "Convert br v = Some d" "ToVal br d ty = Some v"
    by (auto simp: convertible_def split: option.splits)
  from Cons.prems ve have fresh: "v \<notin> set seen" by auto
  have "\<exists>seen'. parse_elements br ty (v # seen) (length ves) (encode_entries br ves @ tail) =
            Parsed (ves, seen', tail) \<and> set seen' = set (v # seen) \<union> fst ` set ves"
    using Cons.prems ve by (intro Cons.IH) auto
  then obtain seen' where
    "parse_elements br ty (v # seen) (length ves) (encode_entries br ves @ tail) = Parsed (ves, seen', tail)"
    "set seen' = set (v # seen) \<union> fst ` set ves" by blast
  with d fresh Cons.prems(1) show ?case
    by (auto simp: ve encode_entries_def)
qed

lemma parse_buckets_encode:
  assumes "recs \<noteq> [] \<longrightarrow> ty \<noteq> None"
    and "\<forall>r \<in> set recs. snd r \<noteq> [] \<and> (\<forall>ve \<in> set (snd r). convertible br ty (fst ve))"
    and "distinct (map fst (concat (map snd recs)))"
    and "fst ` set (concat (map snd recs)) \<inter> set seen = {}"
    and "unat i + length (concat (map snd recs)) = unat n"
  shows "parse_buckets br ty n seen i (encode_records br recs) = Parsed recs"
  using assms
proof (induction recs arbitrary: seen i)
  case Nil
  then have "\<not> i < n" by (simp add: word_less_nat_alt)
  then show ?case
    by (subst parse_buckets.simps) (simp add: encode_records_def)
next
  case (Cons r recs)
  obtain cnt ves where r: "r = (cnt, ves)" by (cases r)
  from Cons.prems r have ty: "ty \<noteq> None" and ne: "ves \<noteq> []"
    and cv: "\<forall>ve \<in> set ves. convertible br ty (fst ve)"
    and d1: "distinct (map fst ves)"
    and s1: "fst ` set ves \<inter> set seen = {}"
    by auto
  from Cons.prems(5) r have tot: "unat i + length ves + length (concat (map snd recs)) = unat n"
    by simp
  from ne have "0 < length ves" by simp
  with tot have "unat i < unat n" by arith
  then have lt: "i < n" by (simp add: word_less_nat_alt)
  have "unat n < 2 ^ 64" using unsigned_less [of n] by simp
  with tot have small: "unat i + length ves < 2 ^ 64" by simp
  from tot have "length ves \<le> unat n" by simp
  then have k: "unat (of_nat (length ves) :: 64 word) = length ves"
    by (rule le_unat_uoi)
  from small k have ik: "unat (i + of_nat (length ves)) = unat i + length ves"
    by (simp add: unat_add_lem [THEN iffD1])
  from parse_elements_encode [OF ty cv d1 s1, of "encode_records br recs"]
  obtain seen' where
    pe: "parse_elements br ty seen (length ves) (encode_entries br ves @ encode_records br recs) =
            Parsed (ves, seen', encode_records br recs)"
    and ss: "set seen' = set seen \<union> fst ` set ves" by blast
  have IH: "parse_buckets br ty n seen' (i + of_nat (length ves)) (encode_records br recs) = Parsed recs"
  proof (rule Cons.IH)
    show "recs \<noteq> [] \<longrightarrow> ty \<noteq> None" using ty by simp
    show "\<forall>r \<in> set recs. snd r \<noteq> [] \<and> (\<forall>ve \<in> set (snd r). convertible br ty (fst ve))"
      using Cons.prems(2) by simp
    show "distinct (map fst (concat (map snd recs)))" using Cons.prems(3) by simp
    show "fst ` set (concat (map snd recs)) \<inter> set seen' = {}"
      using Cons.prems(3,4) unfolding ss r by auto
    show "unat (i + of_nat (length ves)) + length (concat (map snd recs)) = unat n"
      unfolding ik using tot by simp
  qed
  have enc: "encode_records br (r # recs) =
      BCount (of_nat (length ves)) # BCount cnt # (encode_entries br ves @ encode_records br recs)"
    by (simp add: encode_records_def r)
  show ?case
    unfolding enc
    by (subst parse_buckets.simps) (simp add: lt k pe IH r)
qed

lemma entries_live:
  assumes "\<forall>e \<in> set es. element_store s e \<noteq> None"
  shows "concat (map (\<lambda>e. case element_store s e of None \<Rightarrow> [] | Some el \<Rightarrow> [(val el, epsilon el)]) es)
      = map (entry_of s) es"
  using assms by (induction es) (auto simp: entry_of_def)

lemma bucket_view_live:
  assumes "bucket_store s b = Some bk" "\<forall>e \<in> set (elements bk). element_store s e \<noteq> None"
  shows "bucket_view s b = (count bk, map (entry_of s) (elements bk))"
  using assms by (simp add: bucket_view_def entries_live)

lemma serialize_elements_eq:
  assumes "\<forall>e \<in> set es. element_store s e \<noteq> None \<and> Convert br (fst (entry_of s e)) \<noteq> None"
  shows "serialize_elements br s i es =
     Inr (Some (encode_entries br (map (entry_of s) es), i + of_nat (length es)))"
  using assms
  by (induction es arbitrary: i) (auto simp: deref_element_def encode_entries_def entry_of_def)

lemma serialize_buckets_eq:
  assumes "\<forall>b \<in> set bs. \<exists>bk. bucket_store s b = Some bk \<and>
     (\<forall>e \<in> set (elements bk). element_store s e \<noteq> None \<and> Convert br (fst (entry_of s e)) \<noteq> None)"
  shows "serialize_buckets br s i bs =
     Inr (Some (encode_records br (map (bucket_view s) bs),
                i + of_nat (length (concat (map (bucket_elements s) bs)))))"
  using assms
proof (induction bs arbitrary: i)
  case Nil
  then show ?case by (simp add: encode_records_def)
next
  case (Cons b bs)
  from Cons.prems obtain bk where bk: "bucket_store s b = Some bk"
    and live: "\<forall>e \<in> set (elements bk). element_store s e \<noteq> None \<and> Convert br (fst (entry_of s e)) \<noteq> None"
    by auto
  from live have live': "\<forall>e \<in> set (elements bk). element_store s e \<noteq> None" by blast
  have IH: "serialize_buckets br s i' bs =
     Inr (Some (encode_records br (map (bucket_view s) bs),
                i' + of_nat (length (concat (map (bucket_elements s) bs)))))" for i'
    using Cons.prems by (intro Cons.IH) simp
  have enc: "encode_records br (map (bucket_view s) (b # bs)) =
      BCount (of_nat (length (elements bk))) # BCount (count bk) #
        encode_entries br (map (entry_of s) (elements bk)) @ encode_records br (map (bucket_view s) bs)"
    by (simp add: encode_records_def bucket_view_live [OF bk live'])
  have be: "bucket_elements s b = elements bk" by (simp add: bucket_elements_def bk)
  show ?case
    unfolding enc
    by (simp add: deref_bucket_def bk serialize_elements_eq [OF live] IH be add.assoc)
qed

lemma valid_chain_view:
  assumes v: "valid_upto X s"
  shows "chain_view s =
     map (\<lambda>b. (bucket_count s b, map (entry_of s) (bucket_elements s b))) (buckets s)"
  unfolding chain_view_def
proof (rule map_cong [OF refl])
  fix b assume b: "b \<in> set (buckets s)"
  from valid_upto_bucket [OF v b] obtain bk where bk: "bucket_store s b = Some bk" by blast
  have "\<forall>e \<in> set (elements bk). element_store s e \<noteq> None"
  proof
    fix e assume "e \<in> set (elements bk)"
    then have "e \<in> set (bucket_elements s b)" by (simp add: bucket_elements_def bk)
    from valid_upto_element [OF v b this] show "element_store s e \<noteq> None"
      by (auto simp: element_ok_def split: option.splits)
  qed
  from bucket_view_live [OF bk this] bk
  show "bucket_view s b = (bucket_count s b, map (entry_of s) (bucket_elements s b))"
    by (simp add: bucket_count_def bucket_elements_def)
qed

lemma valid_entries:
  assumes v: "valid_upto X s"
  shows "concat (map snd (chain_view s)) = map (entry_of s) (all_elements s)"
  by (simp add: valid_chain_view [OF v] all_elements_def map_concat comp_def)

lemma valid_distinct_elements:
  assumes v: "valid_upto {} s"
  shows "distinct (all_elements s)"
  unfolding all_elements_def
proof (rule distinct_concat)
  have inj: "inj_on (bucket_elements s) (set (buckets s))"
  proof (rule inj_onI)
    fix b b' assume b: "b \<in> set (buckets s)" and b': "b' \<in> set (buckets s)"
      and eq: "bucket_elements s b = bucket_elements s b'"
    from v b have "bucket_elements s b \<noteq> []" by (simp add: valid_upto_def)
    then obtain e where e: "e \<in> set (bucket_elements s b)" by (cases "bucket_elements s b") auto
    with eq have e': "e \<in> set (bucket_elements s b')" by simp
    from element_ok_unique [OF valid_upto_element [OF v b e] valid_upto_element [OF v b' e']]
    show "b = b'" by simp
  qed
  from v have "distinct (buckets s)" by (simp add: valid_upto_def)
  with inj show "distinct (map (bucket_elements s) (buckets s))" by (simp add: distinct_map)
next
  fix ys assume "ys \<in> set (map (bucket_elements s) (buckets s))"
  with v show "distinct ys" by (auto simp: valid_upto_def)
next
  fix ys zs assume ys: "ys \<in> set (map (bucket_elements s) (buckets s))"
    and zs: "zs \<in> set (map (bucket_elements s) (buckets s))" and ne: "ys \<noteq> zs"
  from ys obtain b where b: "b \<in> set (buckets s)" "ys = bucket_elements s b" by auto
  from zs obtain b' where b': "b' \<in> set (buckets s)" "zs = bucket_elements s b'" by auto
  show "set ys \<inter> set zs = {}"
  proof (rule ccontr)
    assume "set ys \<inter> set zs \<noteq> {}"
    then obtain e where "e \<in> set ys" "e \<in> set zs" by blast
    with b b' have "element_ok s b e" "element_ok s b' e"
      using valid_upto_element [OF v] by auto
    then have "b' = b" by (rule element_ok_unique)
    with b b' ne show False by simp
  qed
qed

lemma valid_inj_values:
  assumes v: "valid_upto X s"
  shows "inj_on (\<lambda>e. fst (entry_of s e)) (set (all_elements s))"
proof (rule inj_onI)
  fix e e' assume e: "e \<in> set (all_elements s)" and e': "e' \<in> set (all_elements s)"
    and eq: "fst (entry_of s e) = fst (entry_of s e')"
  from e obtain b where b: "b \<in> set (buckets s)" "e \<in> set (bucket_elements s b)"
    by (auto simp: all_elements_def)
  from e' obtain b' where b': "b' \<in> set (buckets s)" "e' \<in> set (bucket_elements s b')"
    by (auto simp: all_elements_def)
  note ok = valid_upto_element [OF v b] and ok' = valid_upto_element [OF v b']
  from ok obtain el where el: "element_store s e = Some el"
    by (auto simp: element_ok_def split: option.splits)
  from ok' obtain el' where el': "element_store s e' = Some el'"
    by (auto simp: element_ok_def split: option.splits)
  from eq el el' have "val el = val el'" by (simp add: entry_of_def)
  from element_ok_key [OF ok ok' el el' this] show "e = e'" .
qed

lemma sketch_values_eq:
  "sketch_values s = map fst (concat (map snd (chain_view s)))"
  by (simp add: sketch_values_def bucket_values_def [abs_def] chain_view_def map_concat comp_def)

lemma round_trip_chain:
  assumes v: "valid_upto {} s" and c: "counted s"
    and conv: "\<forall>x \<in> set (sketch_values s). convertible br (type s) x"
  shows "serialize_buckets br s 0 (buckets s) =
           Inr (Some (encode_records br (chain_view s), numElements s))"
    and "parse_buckets br (type s) (numElements s) [] 0 (encode_records br (chain_view s)) =
           Parsed (chain_view s)"
proof -
  note ents = valid_entries [OF v]
  have vals: "sketch_values s = map (\<lambda>e. fst (entry_of s e)) (all_elements s)"
    by (simp add: sketch_values_eq ents comp_def)
  have cv: "\<forall>e \<in> set (all_elements s). convertible br (type s) (fst (entry_of s e))"
    using conv by (simp add: vals)
  have "\<forall>b \<in> set (buckets s). \<exists>bk. bucket_store s b = Some bk \<and>
     (\<forall>e \<in> set (elements bk). element_store s e \<noteq> None \<and> Convert br (fst (entry_of s e)) \<noteq> None)"
  proof
    fix b assume b: "b \<in> set (buckets s)"
    from valid_upto_bucket [OF v b] obtain bk where bk: "bucket_store s b = Some bk" by blast
    have "\<forall>e \<in> set (elements bk). element_store s e \<noteq> None \<and> Convert br (fst (entry_of s e)) \<noteq> None"
    proof
      fix e assume "e \<in> set (elements bk)"
      then have e: "e \<in> set (bucket_elements s b)" by (simp add: bucket_elements_def bk)
      with b have "e \<in> set (all_elements s)" by (auto simp: all_elements_def)
      with cv have "Convert br (fst (entry_of s e)) \<noteq> None"
        by (auto simp: convertible_def split: option.splits)
      moreover from valid_upto_element [OF v b e] have "element_store s e \<noteq> None"
        by (auto simp: element_ok_def split: option.splits)
      ultimately show "element_store s e \<noteq> None \<and> Convert br (fst (entry_of s e)) \<noteq> None" by simp
    qed
    with bk show "\<exists>bk. bucket_store s b = Some bk \<and>
     (\<forall>e \<in> set (elements bk). element_store s e \<noteq> None \<and> Convert br (fst (entry_of s e)) \<noteq> None)"
      by blast
  qed
  moreover have "of_nat (unat (numElements s)) = numElements s" by simp
  then have "of_nat (length (all_elements s)) = numElements s"
    unfolding c [unfolded counted_def] .
  ultimately show "serialize_buckets br s 0 (buckets s) =
           Inr (Some (encode_records br (chain_view s), numElements s))"
    using serialize_buckets_eq [of "buckets s" s br 0]
    by (simp add: chain_view_def all_elements_def [symmetric])
  show "parse_buckets br (type s) (numElements s) [] 0 (encode_records br (chain_view s)) =
           Parsed (chain_view s)"
  proof (rule parse_buckets_encode)
    show "chain_view s \<noteq> [] \<longrightarrow> type s \<noteq> None"
      using v by (simp add: valid_upto_def chain_view_def)
    show "\<forall>r \<in> set (chain_view s). snd r \<noteq> [] \<and> (\<forall>ve \<in> set (snd r). convertible br (type s) (fst ve))"
    proof
      fix r assume r: "r \<in> set (chain_view s)"
      then obtain b where b: "b \<in> set (buckets s)"
        and rb: "r = (bucket_count s b, map (entry_of s) (bucket_elements s b))"
        unfolding valid_chain_view [OF v] by auto
      from v b have "bucket_elements s b \<noteq> []" by (simp add: valid_upto_def)
      moreover have "\<forall>ve \<in> set (snd r). convertible br (type s) (fst ve)"
        using cv b by (auto simp: rb all_elements_def)
      ultimately show "snd r \<noteq> [] \<and> (\<forall>ve \<in> set (snd r). convertible br (type s) (fst ve))"
        by (simp add: rb)
    qed
    show "distinct (map fst (concat (map snd (chain_view s))))"
      unfolding ents using valid_distinct_elements [OF v] valid_inj_values [OF v]
      by (simp add: distinct_map comp_def)
    show "fst ` set (concat (map snd (chain_view s))) \<inter> set [] = {}" by simp
    show "unat (0 :: 64 word) + length (concat (map snd (chain_view s))) = unat (numElements s)"
      unfolding ents using c by (simp add: counted_def)
  qed
qed

text \<open>
  Claim C5. For a well-formed sketch whose \<open>numElements\<close> counts its elements, and
  conversions under which each of its values and its type come back as they went (the
  type not as nil), \<^verbatim>\<open>DoSerialize\<close> returns a payload, and \<^verbatim>\<open>DoUnserialize\<close> of that
  payload on a default-constructed sketch returns true and leaves a sketch with the same
  capacity, \<open>numElements\<close>, \<open>pruned\<close> and type and with the same chain: the same bucket
  counts in the same order, and in each bucket the same values and epsilons in the same
  order.
\<close>

theorem serialize_round_trip:
  assumes v: "valid s" and c: "counted s"
    and conv: "list_all (convertible br (type s)) (sketch_values s)"
    and ty: "type_codec br (type s)"
  shows "\<exists>data s'. DoSerialize br s = Inr (Some data) \<and>
     DoUnserialize br TopkVal_default data = Inr (True, s') \<and>
     size_cap s' = size_cap s \<and> numElements s' = numElements s \<and> pruned s' = pruned s \<and>
     type s' = type s \<and> chain_view s' = chain_view s"
proof -
  from v have v': "valid_upto {} s" by (simp add: valid_def)
  from conv have conv': "\<forall>x \<in> set (sketch_values s). convertible br (type s) x"
    by (simp add: list_all_iff)
  note rt = round_trip_chain [OF v' c conv']
  obtain t where t: "(case type s of None \<Rightarrow> Some BNil | Some t \<Rightarrow> SerializeType br t) = Some t"
    and inv_t: "(if t = BNil then None else UnserializeType br t) = type s"
    using ty by (cases "type s") (auto simp: type_codec_def split: option.splits)
  let ?data = "BList (BCount (size_cap s) # BCount (numElements s) # BBool (pruned s) # t #
      encode_records br (chain_view s))"
  have ser: "DoSerialize br s = Inr (Some ?data)"
    by (simp add: DoSerialize_def t rt(1) assert_def)
  have "payload_sketch br ?data =
      Parsed (size_cap s, numElements s, pruned s, type s, chain_view s)"
  proof (cases "t = BNil")
    case True
    with inv_t have "type s = None" by simp
    with True rt(2) show ?thesis by (simp add: payload_sketch_def)
  next
    case False
    with inv_t t obtain ty' where "UnserializeType br t = Some ty'" "type s = Some ty'"
      by (cases "UnserializeType br t") (auto split: option.splits)
    with False rt(2) show ?thesis by (simp add: payload_sketch_def)
  qed
  then have "outcome (DoUnserialize br TopkVal_default ?data) =
      Parsed (size_cap s, numElements s, pruned s, type s, chain_view s)"
    by (simp add: DoUnserialize_outcome)
  then obtain s' where "DoUnserialize br TopkVal_default ?data = Inr (True, s')"
    "size_cap s' = size_cap s" "numElements s' = numElements s" "pruned s' = pruned s"
    "type s' = type s" "chain_view s' = chain_view s"
    by (auto simp: outcome_def split: sum.splits if_splits)
  with ser show ?thesis by blast
qed

theorem serialize_round_trip_witness:
  "valid sketch_ABCD \<and> counted sketch_ABCD \<and>
   list_all (convertible example_Broker (type sketch_ABCD)) (sketch_values sketch_ABCD) \<and>
   type_codec example_Broker (type sketch_ABCD) \<and>
   (\<exists>data s'. DoSerialize example_Broker sketch_ABCD = Inr (Some data) \<and>
      DoUnserialize example_Broker TopkVal_default data = Inr (True, s') \<and>
      chain_view s' = chain_view sketch_ABCD) \<and>
   DoSerialize example_Broker sketch_ABCD =
     Inr (Some (BList [BCount 3, BCount 3, BBool False, BCount 3,
             BCount 2, BCount 1, BCount 0, BString ''B'', BCount 0, BString ''C'',
             BCount 1, BCount 2, BCount 1, BString ''D'']))"
proof -
  have v: "valid sketch_ABCD" by code_simp
  have c: "counted sketch_ABCD" by code_simp
  have cv: "list_all (convertible example_Broker (type sketch_ABCD)) (sketch_values sketch_ABCD)"
    by code_simp
  have ty: "type_codec example_Broker (type sketch_ABCD)" by code_simp
  have d: "DoSerialize example_Broker sketch_ABCD =
     Inr (Some (BList [BCount 3, BCount 3, BBool False, BCount 3,
             BCount 2, BCount 1, BCount 0, BString ''B'', BCount 0, BString ''C'',
             BCount 1, BCount 2, BCount 1, BString ''D'']))"
    by code_simp
  from serialize_round_trip [OF v c cv ty] v c cv ty d show ?thesis by blast
qed

subsection \<open>The order of the chain\<close>

lemma prune_step_eq:
  assumes "buckets s = b # bs" "bucket_store s b = Some bk" "elements bk = d # ds"
    "element_store s d = Some dl" "type s \<noteq> None"
  shows "prune_step s =
     Inr ((if ds = [] then drop_bucket (detach_victim (s\<lparr> pruned := True \<rparr>) b d (HashKey (val dl))) b
           else detach_victim (s\<lparr> pruned := True \<rparr>) b d (HashKey (val dl)))
          \<lparr> numElements := numElements s - 1 \<rparr>)"
  using assms
  by (auto simp: prune_step_def assert_def deref_bucket_def deref_element_def GetHash_def
        RemoveEntry_def delete_Element_def set_elements_def delete_Bucket_def
        detach_victim_def drop_bucket_def Let_def)

lemma drop_bucket_simps [simp]:
  "buckets (drop_bucket s b) = tl (buckets s)"
  "elementDict (drop_bucket s b) = elementDict s"
  "size_cap (drop_bucket s b) = size_cap s"
  "numElements (drop_bucket s b) = numElements s"
  "pruned (drop_bucket s b) = pruned s"
  "type (drop_bucket s b) = type s"
  "next_addr (drop_bucket s b) = next_addr s"
  "element_store (drop_bucket s b) = element_store s"
  "bucket_store (drop_bucket s b) = (bucket_store s)(b := None)"
  by (simp_all add: drop_bucket_def)

lemma bucket_count_drop:
  "bucket_count (drop_bucket s b) b' = (if b' = b then 0 else bucket_count s b')"
  by (simp add: bucket_count_def)

lemma valid_upto_filled:
  assumes "valid_upto X s" "\<forall>b \<in> X. b \<in> set (buckets s) \<longrightarrow> bucket_elements s b \<noteq> []"
  shows "valid_upto {} s"
  using assms unfolding valid_upto_def by auto

lemma valid_upto_drop_head:
  assumes v: "valid_upto {b} s" and bl: "buckets s = b # bs" and em: "bucket_elements s b = []"
  shows "valid_upto {} (drop_bucket s b)"
proof -
  from v bl have nb: "b \<notin> set bs" and dist: "distinct bs" by (auto simp: valid_upto_def)
  have be: "bucket_elements (drop_bucket s b) b' = bucket_elements s b'" if "b' \<in> set bs" for b'
    using that nb by (auto simp: bucket_elements_def)
  have eo: "element_ok (drop_bucket s b) b' e = element_ok s b' e" for b' e
    by (simp add: element_ok_def split: option.splits)
  have c1: "\<forall>b' \<in> set bs. b' < next_addr s \<and> bucket_store s b' \<noteq> None \<and> bucket_elements s b' \<noteq> []"
    using v bl nb by (auto simp: valid_upto_def)
  have c2: "\<forall>b' \<in> set bs. distinct (bucket_elements s b')"
    using v bl by (auto simp: valid_upto_def)
  have c3: "\<forall>b' \<in> set bs. \<forall>e \<in> set (bucket_elements s b'). element_ok s b' e"
    using v bl by (auto simp: valid_upto_def)
  have c4: "\<forall>ke \<in> set (elementDict s). entry_ok (drop_bucket s b) ke"
  proof
    fix ke assume "ke \<in> set (elementDict s)"
    with v have ok: "entry_ok s ke" by (auto simp: valid_upto_def)
    then obtain b' where b': "b' \<in> set (buckets s)" "snd ke \<in> set (bucket_elements s b')"
      by (auto simp: entry_ok_def)
    with em bl have "b' \<in> set bs" by auto
    with b' be have "\<exists>b' \<in> set bs. snd ke \<in> set (bucket_elements (drop_bucket s b) b')"
      by auto
    with ok show "entry_ok (drop_bucket s b) ke"
      by (simp add: entry_ok_def bl split: option.splits)
  qed
  have c5: "bs \<noteq> [] \<longrightarrow> type s \<noteq> None" using v bl by (simp add: valid_upto_def)
  have bs': "buckets (drop_bucket s b) = bs" by (simp add: bl)
  have st: "bucket_store (drop_bucket s b) b' = bucket_store s b'" if "b' \<in> set bs" for b'
    using that nb by auto
  show ?thesis
    unfolding valid_upto_def bs'
    using dist c1 c2 c3 c4 c5 be st
    by (simp add: eo)
qed

lemma prune_step_preserves:
  assumes v: "valid_upto {} s" and ord: "ordered s" and r: "prune_step s = Inr s'"
  shows "valid_upto {} s' \<and> ordered s'"
proof -
  from r have "buckets s \<noteq> []"
    by (auto simp: prune_step_def assert_def Let_def split: if_splits)
  then obtain b bs where bl: "buckets s = b # bs" by (cases "buckets s") auto
  with v obtain bk where bk: "bucket_store s b = Some bk" and ne: "bucket_elements s b \<noteq> []"
    and ty: "type s \<noteq> None" and nb: "b \<notin> set bs"
    by (auto simp: valid_upto_def)
  then obtain d ds where ds: "elements bk = d # ds"
    by (cases "elements bk") (auto simp: bucket_elements_def)
  have bm: "b \<in> set (buckets s)" by (simp add: bl)
  have be: "bucket_elements s b = d # ds" by (simp add: bucket_elements_def bk ds)
  then have dm: "d \<in> set (bucket_elements s b)" by simp
  from valid_upto_element [OF v bm dm] obtain dl where dl: "element_store s d = Some dl"
    by (auto simp: element_ok_def split: option.splits)
  let ?s1 = "s\<lparr> pruned := True \<rparr>"
  let ?s4 = "detach_victim ?s1 b d (HashKey (val dl))"
  have v1: "valid_upto {} ?s1" using v by simp
  have v4: "valid_upto (insert b {}) ?s4"
    by (rule valid_upto_detach [OF v1, where ds = ds and dl = dl]) (use bl be dl in simp_all)
  have be4: "bucket_elements ?s4 b = ds" by (simp add: bucket_elements_detach be)
  have o4: "ordered ?s4" using ord by simp
  note eq = prune_step_eq [OF bl bk ds dl ty]
  show ?thesis
  proof (cases "ds = []")
    case True
    with r eq have s': "s' = (drop_bucket ?s4 b)\<lparr> numElements := numElements s - 1 \<rparr>"
      by simp
    have "buckets ?s4 = b # bs" by (simp add: bl)
    from valid_upto_drop_head [OF _ this] v4 be4 True
    have "valid_upto {} (drop_bucket ?s4 b)" by simp
    moreover have "map (bucket_count (drop_bucket ?s4 b)) bs = map (bucket_count s) bs"
      using nb by (intro map_cong) (auto simp: bucket_count_drop)
    then have cc: "chain_counts (drop_bucket ?s4 b) = tl (chain_counts s)"
      by (simp add: chain_counts_def bl)
    from ord have "sorted_wrt (<) (tl (chain_counts s))"
      by (cases "chain_counts s") (auto simp: ordered_def)
    then have "ordered (drop_bucket ?s4 b)" unfolding ordered_def cc .
    ultimately show ?thesis by (simp add: s')
  next
    case False
    with r eq have s': "s' = ?s4\<lparr> numElements := numElements s - 1 \<rparr>" by simp
    from v4 be4 False have "valid_upto {} ?s4" by (intro valid_upto_filled [OF v4]) simp
    with o4 show ?thesis by (simp add: s')
  qed
qed

lemma prune_loop_preserves:
  "valid_upto {} s \<Longrightarrow> ordered s \<Longrightarrow> prune_loop s = Inr s' \<Longrightarrow>
   valid_upto {} s' \<and> ordered s'"
proof (induction s rule: prune_loop.induct)
  case (1 s)
  show ?case
  proof (cases "size_cap s < numElements s")
    case True
    with "1.prems"(3) obtain s1 where s1: "prune_step s = Inr s1" "prune_loop s1 = Inr s'"
      by (auto simp: prune_loop.simps [of s] split: sum.splits)
    from prune_step_preserves [OF "1.prems"(1,2) s1(1)]
    have "valid_upto {} s1" "ordered s1" by simp_all
    from "1.IH" [OF True s1(1) this s1(2)] show ?thesis .
  next
    case False
    with "1.prems" show ?thesis by (simp add: prune_loop.simps [of s])
  qed
qed

lemma no_wrap_type [simp]: "no_wrap (s\<lparr> type := t \<rparr>) = no_wrap s"
  by (simp add: no_wrap_def)

lemma Encountered_preserves:
  assumes v: "valid_upto {} s" and ord: "ordered s" and nw: "no_wrap s"
    and r: "Encountered s x = Inr s'"
  shows "valid_upto {} s' \<and> ordered s'"
proof -
  from r obtain s0 where
    s0: "(if numElements s = 0 then Typify s (GetType x)
          else (case type s of None \<Rightarrow> Inl (Undefined ''type is null'')
                | Some t \<Rightarrow>
                    if \<not> same_type t (GetType x)
                    then Inl (ReporterError ''Trying to add element to topk with differing type from other elements'')
                    else Inr s)) = Inr s0"
    and r0: "ebind (GetHash s0 x) (\<lambda>key.
       case Lookup s0 key of
         Some e \<Rightarrow> IncrementCounter s0 e 1
       | None \<Rightarrow>
           (let (e, s1) = new_Element s0 x in
            if numElements s1 < size_cap s1
            then Encountered_add s1 key e
            else ebind (Encountered_replace s1 key e) (\<lambda>s2. IncrementCounter s2 e 1))) = Inr s'"
    unfolding Encountered_def by (auto simp: ebind_Inr_iff)
  from s0 have "s0 = s \<and> type s \<noteq> None \<or> (\<exists>t. s0 = s\<lparr> type := Some t \<rparr>)"
    by (auto simp: Typify_def assert_def split: if_splits option.splits)
  then have v0: "valid_upto {} s0" and ty0: "type s0 \<noteq> None" and o0: "ordered s0"
    and n0: "no_wrap s0"
    using v ord nw by (auto intro: valid_upto_type)
  from ty0 have "GetHash s0 x = Inr (HashKey x)" by (auto simp: GetHash_def)
  with r0 have "(case Lookup s0 (HashKey x) of
         Some e \<Rightarrow> IncrementCounter s0 e 1
       | None \<Rightarrow>
           (let (e, s1) = new_Element s0 x in
            if numElements s1 < size_cap s1
            then Encountered_add s1 (HashKey x) e
            else ebind (Encountered_replace s1 (HashKey x) e) (\<lambda>s2. IncrementCounter s2 e 1))) = Inr s'"
    by simp
  from Encountered_body_preserves [OF v0 ty0 o0 n0 this] show ?thesis .
qed

lemma Merge_preserves:
  assumes v: "valid_upto {} s" and ord: "ordered s" and pos: "positive s" and bd: "bounded M s"
    and m: "mergeable other" and w: "M + merge_weight other (buckets other) < 2 ^ 64"
    and r: "Merge s other doPrune = Inr s'"
  shows "valid_upto {} s' \<and> ordered s'"
proof (cases "type other")
  case None
  with r have "s' = s" by (auto simp: Merge_def assert_def split: if_splits)
  with v ord show ?thesis by simp
next
  case (Some vt)
  from r Some obtain s1 s2 where
    s1: "(case type s of
            None \<Rightarrow> ebind (assert (numElements s = 0) ''numElements == 0'') (\<lambda>_. Typify s vt)
          | Some t \<Rightarrow>
              if \<not> same_type t vt
              then Inl (ReporterError ''Cannot merge top-k elements of differing types.'')
              else Inr s) = Inr s1"
    and s2: "merge_buckets s1 other (buckets other) = Inr s2"
    and r2: "(if \<not> doPrune then Inr s2 else prune_loop s2) = Inr s'"
    unfolding Merge_def by (auto simp: ebind_Inr_iff assert_def split: if_splits)
  from s1 have "s1 = s \<and> type s \<noteq> None \<or> (\<exists>t. s1 = s\<lparr> type := Some t \<rparr>)"
    by (auto simp: Typify_def assert_def split: if_splits option.splits)
  then have "merge_inv M s1"
    using v ord pos bd
    by (auto simp: merge_inv_def positive_def bounded_def intro: valid_upto_type)
  from merge_buckets_loop [OF this m [unfolded mergeable_def] w] s2
  have "merge_inv (M + merge_weight other (buckets other)) s2" by simp
  then have v2: "valid_upto {} s2" and o2: "ordered s2" by (simp_all add: merge_inv_def)
  show ?thesis
  proof (cases doPrune)
    case True
    with r2 have "prune_loop s2 = Inr s'" by simp
    from prune_loop_preserves [OF v2 o2 this] show ?thesis .
  next
    case False
    with r2 v2 o2 show ?thesis by simp
  qed
qed

lemma chain_counts_view: "chain_counts s = map fst (chain_view s)"
  by (simp add: chain_counts_def chain_view_def bucket_count_def bucket_view_def
        split: option.splits)

text \<open>
  Claim C7, as stated: the chain is strictly ordered after every operation, deserialization
  included. \<^verbatim>\<open>DoUnserialize\<close> appends one bucket per record with the count the record
  gives and compares no two counts, so a payload whose records carry the counts 5 and 2, in
  this order, is accepted and leaves the chain 5, 2.
\<close>

theorem unordered_payload_counterexample:
  "outcome (DoUnserialize example_Broker TopkVal_default
     (BList [BCount 3, BCount 2, BBool False, BCount 3,
             BCount 1, BCount 5, BCount 0, BString ''a'',
             BCount 1, BCount 2, BCount 0, BString ''b''])) =
     Parsed (3, 2, False, Some TYPE_STRING,
       [(5, [(StringVal ''a'', 0)]), (2, [(StringVal ''b'', 0)])]) \<and>
   \<not> ordered (snd (projr (DoUnserialize example_Broker TopkVal_default
     (BList [BCount 3, BCount 2, BBool False, BCount 3,
             BCount 1, BCount 5, BCount 0, BString ''a'',
             BCount 1, BCount 2, BCount 0, BString ''b'']))))"
proof -
  have 1: "outcome (DoUnserialize example_Broker TopkVal_default
     (BList [BCount 3, BCount 2, BBool False, BCount 3,
             BCount 1, BCount 5, BCount 0, BString ''a'',
             BCount 1, BCount 2, BCount 0, BString ''b''])) =
     Parsed (3, 2, False, Some TYPE_STRING,
       [(5, [(StringVal ''a'', 0)]), (2, [(StringVal ''b'', 0)])])"
    by code_simp
  have 2: "\<not> ordered (snd (projr (DoUnserialize example_Broker TopkVal_default
     (BList [BCount 3, BCount 2, BBool False, BCount 3,
             BCount 1, BCount 5, BCount 0, BString ''a'',
             BCount 1, BCount 2, BCount 0, BString ''b'']))))"
    by code_simp
  from 1 2 show ?thesis by blast
qed

text \<open>
  Claim C7, amended. The operations keep the order of the chain, and deserialization takes
  it from the payload. If \<^verbatim>\<open>Encountered\<close> returns on a well-formed sketch with a strictly
  ordered chain and no count at \<open>2^64 - 1\<close>, the sketch is again well-formed with a
  strictly ordered chain. The same holds for \<^verbatim>\<open>Merge\<close>, with and without pruning, when
  the counts of the receiver are positive and at most \<open>M\<close>, the buckets and elements of
  the other sketch are live with counts that are nonzero in the 32 bits passed to
  \<^verbatim>\<open>IncrementCounter\<close>, and \<open>M\<close> plus the counts handed over stays below \<open>2^64\<close>. An
  accepted payload leaves the buckets of its records, in their order and with their
  counts, so the chain is strictly ordered exactly when the counts of the records are
  strictly increasing. The queries (\<^verbatim>\<open>GetTopK\<close> and the accessors) return a value and
  leave the sketch as it is.
\<close>

theorem chain_ordering_preserved:
  "(valid s \<and> ordered s \<and> no_wrap s \<and> Encountered s x = Inr s1 \<longrightarrow> valid s1 \<and> ordered s1) \<and>
   (valid s \<and> ordered s \<and> positive s \<and> bounded M s \<and> mergeable other \<and>
      M + merge_weight other (buckets other) < 2 ^ 64 \<and> Merge s other doPrune = Inr s2
      \<longrightarrow> valid s2 \<and> ordered s2) \<and>
   (payload_sketch br data = Parsed (cap, n, p, ty, recs)
      \<longrightarrow> (\<exists>s3. DoUnserialize br TopkVal_default data = Inr (True, s3) \<and>
             chain_counts s3 = map fst recs \<and>
             ordered s3 = sorted_wrt (<) (map fst recs)))"
proof (intro conjI impI)
  assume a: "valid s \<and> ordered s \<and> no_wrap s \<and> Encountered s x = Inr s1"
  then have "valid_upto {} s1 \<and> ordered s1"
    by (intro Encountered_preserves [of s x s1]) (simp_all add: valid_def)
  then show "valid s1" "ordered s1" by (simp_all add: valid_def)
next
  assume a: "valid s \<and> ordered s \<and> positive s \<and> bounded M s \<and> mergeable other \<and>
      M + merge_weight other (buckets other) < 2 ^ 64 \<and> Merge s other doPrune = Inr s2"
  then have "valid_upto {} s2 \<and> ordered s2"
    by (intro Merge_preserves [of s M other doPrune s2]) (simp_all add: valid_def)
  then show "valid s2" "ordered s2" by (simp_all add: valid_def)
next
  assume "payload_sketch br data = Parsed (cap, n, p, ty, recs)"
  then have "outcome (DoUnserialize br TopkVal_default data) = Parsed (cap, n, p, ty, recs)"
    by (simp add: DoUnserialize_outcome)
  then obtain s3 where s3: "DoUnserialize br TopkVal_default data = Inr (True, s3)"
    and cv: "chain_view s3 = recs"
    by (auto simp: outcome_def split: sum.splits if_splits)
  from cv have "chain_counts s3 = map fst recs" by (simp add: chain_counts_view)
  with s3 show "\<exists>s3. DoUnserialize br TopkVal_default data = Inr (True, s3) \<and>
             chain_counts s3 = map fst recs \<and>
             ordered s3 = sorted_wrt (<) (map fst recs)"
    by (auto simp: ordered_def)
qed

theorem chain_ordering_preserved_witness:
  "valid sketch_AAB \<and> ordered sketch_AAB \<and> no_wrap sketch_AAB \<and>
   \<not> isl (Encountered sketch_AAB (StringVal ''C'')) \<and>
   ordered (projr (Encountered sketch_AAB (StringVal ''C''))) \<and>
   positive sketch_AAB \<and> bounded 2 sketch_AAB \<and> mergeable (sketch_of 3 [StringVal ''D'']) \<and>
   2 + merge_weight (sketch_of 3 [StringVal ''D'']) (buckets (sketch_of 3 [StringVal ''D''])) < 2 ^ 64 \<and>
   \<not> isl (Merge sketch_AAB (sketch_of 3 [StringVal ''D'']) True) \<and>
   ordered (projr (Merge sketch_AAB (sketch_of 3 [StringVal ''D'']) True)) \<and>
   (\<exists>s3. DoUnserialize example_Broker TopkVal_default
            (BList [BCount 3, BCount 3, BBool False, BCount 3,
               BCount 2, BCount 1, BCount 0, BString ''B'', BCount 0, BString ''C'',
               BCount 1, BCount 2, BCount 1, BString ''D'']) = Inr (True, s3) \<and>
          chain_counts s3 = [1, 2] \<and> ordered s3)"
proof -
  let ?other = "sketch_of 3 [StringVal ''D'']"
  let ?data = "BList [BCount 3, BCount 3, BBool False, BCount 3,
               BCount 2, BCount 1, BCount 0, BString ''B'', BCount 0, BString ''C'',
               BCount 1, BCount 2, BCount 1, BString ''D'']"
  have v: "valid sketch_AAB" by code_simp
  have o: "ordered sketch_AAB" by code_simp
  have nw: "no_wrap sketch_AAB" by code_simp
  have ne: "\<not> isl (Encountered sketch_AAB (StringVal ''C''))" by code_simp
  then have e: "Encountered sketch_AAB (StringVal ''C'') =
      Inr (projr (Encountered sketch_AAB (StringVal ''C'')))" by simp
  have ps: "positive sketch_AAB" by code_simp
  have bd: "bounded 2 sketch_AAB" by code_simp
  have mg: "mergeable ?other" by code_simp
  have "merge_weight ?other (buckets ?other) = 1" by code_simp
  then have w: "2 + merge_weight ?other (buckets ?other) < 2 ^ 64" by simp
  have nm: "\<not> isl (Merge sketch_AAB ?other True)" by code_simp
  then have m: "Merge sketch_AAB ?other True = Inr (projr (Merge sketch_AAB ?other True))"
    by simp
  have pl: "payload_sketch example_Broker ?data =
     Parsed (3, 3, False, Some TYPE_STRING,
       [(1, [(StringVal ''B'', 0), (StringVal ''C'', 0)]), (2, [(StringVal ''D'', 1)])])"
    by code_simp
  note T = chain_ordering_preserved [where s = sketch_AAB and x = "StringVal ''C''"
      and ?s1.0 = "projr (Encountered sketch_AAB (StringVal ''C''))"
      and M = 2 and other = ?other and doPrune = True
      and ?s2.0 = "projr (Merge sketch_AAB ?other True)"
      and br = example_Broker and data = ?data and cap = 3 and n = 3 and p = False
      and ty = "Some TYPE_STRING"
      and recs = "[(1, [(StringVal ''B'', 0), (StringVal ''C'', 0)]), (2, [(StringVal ''D'', 1)])]"]
  from T v o nw e have 1: "ordered (projr (Encountered sketch_AAB (StringVal ''C'')))"
    by blast
  from T v o ps bd mg w m have 2: "ordered (projr (Merge sketch_AAB ?other True))"
    by blast
  from T pl have 3: "\<exists>s3. DoUnserialize example_Broker TopkVal_default ?data = Inr (True, s3) \<and>
          chain_counts s3 = [1, 2] \<and> ordered s3"
    by auto
  from v o nw ne ps bd mg w nm 1 2 3 show ?thesis by blast
qed

end
